theory Spec2Isabelle
  imports Main "HOL-Library.Multiset"
begin

section \<open>The linked list of core/types/list.cpp\<close>

text \<open>
  The list is a chain of heap nodes (\<open>ListElement\<close>) hanging off a heap block
  (\<open>ListData\<close>) that a \<open>LinkedList\<close> object points to through its member \<open>_data\<close>.
  Pointers are \<open>addr option\<close> with \<open>None\<close> for the null pointer. The two heaps are
  partial maps from addresses to objects; a freed object is removed from its map.
  Reading or writing through a null pointer or through a pointer to a freed object is
  undefined behaviour in C++ and is an error value of the model.
\<close>

subsection \<open>Data\<close>

type_synonym addr = nat

text \<open>
  \<open>ListElement\<close>: the payload (a Variant, here any type with HOL equality standing for
  Variant's \<open>operator==\<close>), the two links and the back-reference to the owning
  \<open>ListData\<close>.
\<close>

record 'v ListElement =
  val :: 'v
  next_ptr :: "addr option"
  prev_ptr :: "addr option"
  data :: "addr option"

text \<open>
  \<open>ListData\<close>: members \<open>first\<close>, \<open>last\<close> and \<open>size_cache\<close>. The declaration lives in
  list.h; \<open>size_cache\<close> is taken as an unbounded integer.
\<close>

record ListData =
  first_el :: "addr option"
  last_el :: "addr option"
  size_cache :: int

text \<open>
  The store: both heaps, and the member \<open>_data\<close> of the \<open>LinkedList\<close> object the
  methods are called on (\<open>this_data\<close>). Nodes and blocks of other lists may live in the
  same heaps.
\<close>

record 'v state =
  elems :: "addr \<rightharpoonup> 'v ListElement"
  datas :: "addr \<rightharpoonup> ListData"
  this_data :: "addr option"

datatype error = NullDeref | UseAfterFree

definition bindE :: "error + 'a \<Rightarrow> ('a \<Rightarrow> error + 'b) \<Rightarrow> error + 'b" where
  "bindE m f = (case m of Inl e \<Rightarrow> Inl e | Inr x \<Rightarrow> f x)"

subsection \<open>Reading and writing through pointers\<close>

definition elem_at :: "'v state \<Rightarrow> addr option \<Rightarrow> error + 'v ListElement" where
  "elem_at s p =
     (case p of None \<Rightarrow> Inl NullDeref
      | Some a \<Rightarrow> (case elems s a of None \<Rightarrow> Inl UseAfterFree | Some e \<Rightarrow> Inr e))"

definition data_at :: "'v state \<Rightarrow> addr option \<Rightarrow> error + ListData" where
  "data_at s p =
     (case p of None \<Rightarrow> Inl NullDeref
      | Some d \<Rightarrow> (case datas s d of None \<Rightarrow> Inl UseAfterFree | Some D \<Rightarrow> Inr D))"

definition rd_next :: "'v state \<Rightarrow> addr option \<Rightarrow> error + addr option" where
  "rd_next s p = bindE (elem_at s p) (\<lambda>e. Inr (next_ptr e))"

definition rd_prev :: "'v state \<Rightarrow> addr option \<Rightarrow> error + addr option" where
  "rd_prev s p = bindE (elem_at s p) (\<lambda>e. Inr (prev_ptr e))"

definition rd_data :: "'v state \<Rightarrow> addr option \<Rightarrow> error + addr option" where
  "rd_data s p = bindE (elem_at s p) (\<lambda>e. Inr (data e))"

definition rd_first :: "'v state \<Rightarrow> addr option \<Rightarrow> error + addr option" where
  "rd_first s p = bindE (data_at s p) (\<lambda>D. Inr (first_el D))"

definition rd_last :: "'v state \<Rightarrow> addr option \<Rightarrow> error + addr option" where
  "rd_last s p = bindE (data_at s p) (\<lambda>D. Inr (last_el D))"

definition rd_size :: "'v state \<Rightarrow> addr option \<Rightarrow> error + int" where
  "rd_size s p = bindE (data_at s p) (\<lambda>D. Inr (size_cache D))"

definition set_next :: "'v state \<Rightarrow> addr option \<Rightarrow> addr option \<Rightarrow> error + 'v state" where
  "set_next s p q =
     (case p of None \<Rightarrow> Inl NullDeref
      | Some a \<Rightarrow> (case elems s a of None \<Rightarrow> Inl UseAfterFree
          | Some e \<Rightarrow> Inr (s\<lparr>elems := (elems s)(a \<mapsto> e\<lparr>next_ptr := q\<rparr>)\<rparr>)))"

definition set_prev :: "'v state \<Rightarrow> addr option \<Rightarrow> addr option \<Rightarrow> error + 'v state" where
  "set_prev s p q =
     (case p of None \<Rightarrow> Inl NullDeref
      | Some a \<Rightarrow> (case elems s a of None \<Rightarrow> Inl UseAfterFree
          | Some e \<Rightarrow> Inr (s\<lparr>elems := (elems s)(a \<mapsto> e\<lparr>prev_ptr := q\<rparr>)\<rparr>)))"

definition set_first :: "'v state \<Rightarrow> addr option \<Rightarrow> addr option \<Rightarrow> error + 'v state" where
  "set_first s p q =
     (case p of None \<Rightarrow> Inl NullDeref
      | Some d \<Rightarrow> (case datas s d of None \<Rightarrow> Inl UseAfterFree
          | Some D \<Rightarrow> Inr (s\<lparr>datas := (datas s)(d \<mapsto> D\<lparr>first_el := q\<rparr>)\<rparr>)))"

definition set_last :: "'v state \<Rightarrow> addr option \<Rightarrow> addr option \<Rightarrow> error + 'v state" where
  "set_last s p q =
     (case p of None \<Rightarrow> Inl NullDeref
      | Some d \<Rightarrow> (case datas s d of None \<Rightarrow> Inl UseAfterFree
          | Some D \<Rightarrow> Inr (s\<lparr>datas := (datas s)(d \<mapsto> D\<lparr>last_el := q\<rparr>)\<rparr>)))"

definition set_size :: "'v state \<Rightarrow> addr option \<Rightarrow> int \<Rightarrow> error + 'v state" where
  "set_size s p n =
     (case p of None \<Rightarrow> Inl NullDeref
      | Some d \<Rightarrow> (case datas s d of None \<Rightarrow> Inl UseAfterFree
          | Some D \<Rightarrow> Inr (s\<lparr>datas := (datas s)(d \<mapsto> D\<lparr>size_cache := n\<rparr>)\<rparr>)))"

text \<open>\<open>memdelete\<close> of a node and of a \<open>ListData\<close> block.\<close>

definition memdelete_elem :: "'v state \<Rightarrow> addr option \<Rightarrow> error + 'v state" where
  "memdelete_elem s p =
     (case p of None \<Rightarrow> Inl NullDeref
      | Some a \<Rightarrow> (case elems s a of None \<Rightarrow> Inl UseAfterFree
          | Some e \<Rightarrow> Inr (s\<lparr>elems := (elems s)(a := None)\<rparr>)))"

definition memdelete_data :: "'v state \<Rightarrow> addr option \<Rightarrow> error + 'v state" where
  "memdelete_data s p =
     (case p of None \<Rightarrow> Inl NullDeref
      | Some d \<Rightarrow> (case datas s d of None \<Rightarrow> Inl UseAfterFree
          | Some D \<Rightarrow> Inr (s\<lparr>datas := (datas s)(d := None)\<rparr>)))"

subsection \<open>The methods\<close>

text \<open>
  \<open>ListData::erase\<close> (list.cpp lines 3 to 23), called on the block at \<open>this_p\<close>.
  \<open>ERR_FAIL_COND_V(c, false)\<close> returns \<open>false\<close> when \<open>c\<close> holds.
\<close>

definition ListData_erase ::
  "'v state \<Rightarrow> addr option \<Rightarrow> addr option \<Rightarrow> error + (bool \<times> 'v state)" where
  "ListData_erase s this_p p_I =
    (if p_I = None then Inr (False, s) else
     bindE (rd_data s p_I) (\<lambda>d.
     if d \<noteq> this_p then Inr (False, s) else
     bindE (rd_first s this_p) (\<lambda>f.
     bindE (if f = p_I then bindE (rd_next s p_I) (set_first s this_p) else Inr s) (\<lambda>s1.
     bindE (rd_last s1 this_p) (\<lambda>l.
     bindE (if l = p_I then bindE (rd_prev s1 p_I) (set_last s1 this_p) else Inr s1) (\<lambda>s2.
     bindE (rd_prev s2 p_I) (\<lambda>pp.
     bindE (if pp \<noteq> None then bindE (rd_next s2 p_I) (set_next s2 pp) else Inr s2) (\<lambda>s3.
     bindE (rd_next s3 p_I) (\<lambda>pn.
     bindE (if pn \<noteq> None then bindE (rd_prev s3 p_I) (set_prev s3 pn) else Inr s3) (\<lambda>s4.
     bindE (memdelete_elem s4 p_I) (\<lambda>s5.
     bindE (rd_size s5 this_p) (\<lambda>n.
     bindE (set_size s5 this_p (n - 1)) (\<lambda>s6.
     Inr (True, s6))))))))))))))"

text \<open>
  The first lines of \<open>push_back\<close> and \<open>push_front\<close> (lines 26 to 31 and 59 to 64): when
  \<open>_data\<close> is null, a \<open>ListData\<close> block is allocated at \<open>d_new\<close>, the address the
  allocator returns, with no first and last node and count 0.
\<close>

definition alloc_data :: "'v state \<Rightarrow> addr \<Rightarrow> 'v state" where
  "alloc_data s d_new =
     (if this_data s = None
      then s\<lparr>datas := (datas s)(d_new \<mapsto> \<lparr>first_el = None, last_el = None, size_cache = 0\<rparr>),
             this_data := Some d_new\<rparr>
      else s)"

text \<open>
  \<open>LinkedList::push_back\<close> (lines 25 to 50). \<open>n\<close> is the address the allocator returns
  for the new node; the allocator returns addresses that are not in use.
\<close>

definition push_back ::
  "'v state \<Rightarrow> addr \<Rightarrow> addr \<Rightarrow> 'v \<Rightarrow> error + (addr option \<times> 'v state)" where
  "push_back s d_new n v =
    (let s0 = alloc_data s d_new in
     bindE (rd_last s0 (this_data s0)) (\<lambda>l.
     let s1 = s0\<lparr>elems := (elems s0)(n \<mapsto>
                 \<lparr>val = v, next_ptr = None, prev_ptr = l, data = this_data s0\<rparr>)\<rparr> in
     bindE (rd_last s1 (this_data s1)) (\<lambda>l1.
     bindE (if l1 \<noteq> None then set_next s1 l1 (Some n) else Inr s1) (\<lambda>s2.
     bindE (set_last s2 (this_data s2) (Some n)) (\<lambda>s3.
     bindE (rd_first s3 (this_data s3)) (\<lambda>f.
     bindE (if f = None then set_first s3 (this_data s3) (Some n) else Inr s3) (\<lambda>s4.
     bindE (rd_size s4 (this_data s4)) (\<lambda>c.
     bindE (set_size s4 (this_data s4) (c + 1)) (\<lambda>s5.
     Inr (Some n, s5))))))))))"

text \<open>\<open>LinkedList::push_front\<close> (lines 58 to 82).\<close>

definition push_front ::
  "'v state \<Rightarrow> addr \<Rightarrow> addr \<Rightarrow> 'v \<Rightarrow> error + (addr option \<times> 'v state)" where
  "push_front s d_new n v =
    (let s0 = alloc_data s d_new in
     bindE (rd_first s0 (this_data s0)) (\<lambda>f.
     let s1 = s0\<lparr>elems := (elems s0)(n \<mapsto>
                 \<lparr>val = v, next_ptr = f, prev_ptr = None, data = this_data s0\<rparr>)\<rparr> in
     bindE (rd_first s1 (this_data s1)) (\<lambda>f1.
     bindE (if f1 \<noteq> None then set_prev s1 f1 (Some n) else Inr s1) (\<lambda>s2.
     bindE (set_first s2 (this_data s2) (Some n)) (\<lambda>s3.
     bindE (rd_last s3 (this_data s3)) (\<lambda>l.
     bindE (if l = None then set_last s3 (this_data s3) (Some n) else Inr s3) (\<lambda>s4.
     bindE (rd_size s4 (this_data s4)) (\<lambda>c.
     bindE (set_size s4 (this_data s4) (c + 1)) (\<lambda>s5.
     Inr (Some n, s5))))))))))"

text \<open>\<open>LinkedList::remove\<close> (lines 90 to 100).\<close>

definition remove :: "'v state \<Rightarrow> addr option \<Rightarrow> error + (bool \<times> 'v state)" where
  "remove s p_I =
    (if this_data s \<noteq> None then
       bindE (ListData_erase s (this_data s) p_I) (\<lambda>(ret, s1).
       bindE (rd_size s1 (this_data s1)) (\<lambda>c.
       if c = 0 then
         bindE (memdelete_data s1 (this_data s1)) (\<lambda>s2. Inr (ret, s2\<lparr>this_data := None\<rparr>))
       else Inr (ret, s1)))
     else Inr (False, s))"

text \<open>\<open>LinkedList::pop_back\<close> (lines 52 to 56) and \<open>pop_front\<close> (lines 84 to 88).\<close>

definition pop_back :: "'v state \<Rightarrow> error + 'v state" where
  "pop_back s =
    (if this_data s \<noteq> None then
       bindE (rd_last s (this_data s)) (\<lambda>l.
       if l \<noteq> None then bindE (remove s l) (\<lambda>(ret, s1). Inr s1) else Inr s)
     else Inr s)"

definition pop_front :: "'v state \<Rightarrow> error + 'v state" where
  "pop_front s =
    (if this_data s \<noteq> None then
       bindE (rd_first s (this_data s)) (\<lambda>f.
       if f \<noteq> None then bindE (remove s f) (\<lambda>(ret, s1). Inr s1) else Inr s)
     else Inr s)"

text \<open>
  Modelled from the spec: \<open>front()\<close>, \<open>back()\<close> and \<open>size()\<close> of \<open>LinkedList\<close> and
  \<open>next()\<close>, \<open>prev()\<close> of \<open>ListElement\<close> are inline members of list.h, which is not
  among the sources. The spec has the list hold no storage when it is empty,
  \<open>front()\<close>/\<open>back()\<close> return the ends (head and tail of the storage), \<open>size()\<close> the
  cached count and \<open>next()\<close>/\<open>prev()\<close> the adjacent handle or none at the boundary (the
  fields \<open>next_ptr\<close> and \<open>prev_ptr\<close>).
\<close>

definition front_l :: "'v state \<Rightarrow> error + addr option" where
  "front_l s = (if this_data s \<noteq> None then rd_first s (this_data s) else Inr None)"

definition back_l :: "'v state \<Rightarrow> error + addr option" where
  "back_l s = (if this_data s \<noteq> None then rd_last s (this_data s) else Inr None)"

definition size_l :: "'v state \<Rightarrow> error + int" where
  "size_l s = (if this_data s \<noteq> None then rd_size s (this_data s) else Inr 0)"

text \<open>
  \<open>LinkedList::find\<close> (lines 102 to 111): the loop runs as long as \<open>it\<close> is not null, so
  on a cyclic chain without a match it does not return; \<open>None\<close> is that outcome.
\<close>

partial_function (option) find_loop ::
  "'v state \<Rightarrow> addr option \<Rightarrow> 'v \<Rightarrow> (error + addr option) option" where
  "find_loop s it p_value =
    (case it of None \<Rightarrow> Some (Inr None)
     | Some a \<Rightarrow>
        (case elems s a of None \<Rightarrow> Some (Inl UseAfterFree)
         | Some e \<Rightarrow>
            if val e = p_value then Some (Inr (Some a))
            else find_loop s (next_ptr e) p_value))"

definition find_l :: "'v state \<Rightarrow> 'v \<Rightarrow> (error + addr option) option" where
  "find_l s p_value =
    (case front_l s of Inl e \<Rightarrow> Some (Inl e) | Inr it \<Rightarrow> find_loop s it p_value)"

text \<open>\<open>LinkedList::erase\<close> by value (lines 113 to 116).\<close>

definition erase :: "'v state \<Rightarrow> 'v \<Rightarrow> (error + (bool \<times> 'v state)) option" where
  "erase s p_value =
    (case find_l s p_value of None \<Rightarrow> None
     | Some (Inl e) \<Rightarrow> Some (Inl e)
     | Some (Inr I) \<Rightarrow> Some (remove s I))"

text \<open>
  \<open>LinkedList::move_to_back\<close> (lines 118 to 138). \<open>ERR_FAIL_COND(c)\<close> returns when \<open>c\<close>
  holds; the method is void, so the early return leaves the state as the only result.
\<close>

definition move_to_back :: "'v state \<Rightarrow> addr option \<Rightarrow> error + 'v state" where
  "move_to_back s p_I =
    bindE (rd_data s p_I) (\<lambda>d.
    if d \<noteq> this_data s then Inr s else
    bindE (rd_next s p_I) (\<lambda>nx.
    if nx = None then Inr s else
    bindE (rd_first s (this_data s)) (\<lambda>f.
    bindE (if f = p_I then bindE (rd_next s p_I) (set_first s (this_data s)) else Inr s) (\<lambda>s1.
    bindE (rd_last s1 (this_data s1)) (\<lambda>l.
    bindE (if l = p_I then bindE (rd_prev s1 p_I) (set_last s1 (this_data s1)) else Inr s1) (\<lambda>s2.
    bindE (rd_prev s2 p_I) (\<lambda>pp.
    bindE (if pp \<noteq> None then bindE (rd_next s2 p_I) (set_next s2 pp) else Inr s2) (\<lambda>s3.
    bindE (rd_next s3 p_I) (\<lambda>pn.
    bindE (rd_prev s3 p_I) (\<lambda>pp3.
    bindE (set_prev s3 pn pp3) (\<lambda>s4.
    bindE (rd_last s4 (this_data s4)) (\<lambda>l4.
    bindE (set_next s4 l4 p_I) (\<lambda>s5.
    bindE (rd_last s5 (this_data s5)) (\<lambda>l5.
    bindE (set_prev s5 p_I l5) (\<lambda>s6.
    bindE (set_next s6 p_I None) (\<lambda>s7.
    set_last s7 (this_data s7) p_I))))))))))))))))"

text \<open>\<open>LinkedList::move_to_front\<close> (lines 140 to 160).\<close>

definition move_to_front :: "'v state \<Rightarrow> addr option \<Rightarrow> error + 'v state" where
  "move_to_front s p_I =
    bindE (rd_data s p_I) (\<lambda>d.
    if d \<noteq> this_data s then Inr s else
    bindE (rd_prev s p_I) (\<lambda>pv.
    if pv = None then Inr s else
    bindE (rd_first s (this_data s)) (\<lambda>f.
    bindE (if f = p_I then bindE (rd_next s p_I) (set_first s (this_data s)) else Inr s) (\<lambda>s1.
    bindE (rd_last s1 (this_data s1)) (\<lambda>l.
    bindE (if l = p_I then bindE (rd_prev s1 p_I) (set_last s1 (this_data s1)) else Inr s1) (\<lambda>s2.
    bindE (rd_prev s2 p_I) (\<lambda>pp.
    bindE (rd_next s2 p_I) (\<lambda>pn.
    bindE (set_next s2 pp pn) (\<lambda>s3.
    bindE (rd_next s3 p_I) (\<lambda>pn3.
    bindE (if pn3 \<noteq> None then bindE (rd_prev s3 p_I) (set_prev s3 pn3) else Inr s3) (\<lambda>s4.
    bindE (rd_first s4 (this_data s4)) (\<lambda>f4.
    bindE (set_prev s4 f4 p_I) (\<lambda>s5.
    bindE (rd_first s5 (this_data s5)) (\<lambda>f5.
    bindE (set_next s5 p_I f5) (\<lambda>s6.
    bindE (set_prev s6 p_I None) (\<lambda>s7.
    set_first s7 (this_data s7) p_I))))))))))))))))"

text \<open>\<open>LinkedList::move_before\<close> (lines 162 to 187).\<close>

definition move_before :: "'v state \<Rightarrow> addr option \<Rightarrow> addr option \<Rightarrow> error + 'v state" where
  "move_before s p_A p_B =
    bindE (rd_prev s p_A) (\<lambda>ap.
    bindE (if ap \<noteq> None then bindE (rd_next s p_A) (set_next s ap)
           else bindE (rd_next s p_A) (set_first s (this_data s))) (\<lambda>s1.
    bindE (rd_next s1 p_A) (\<lambda>an.
    bindE (if an \<noteq> None then bindE (rd_prev s1 p_A) (set_prev s1 an)
           else bindE (rd_prev s1 p_A) (set_last s1 (this_data s1))) (\<lambda>s2.
    bindE (set_next s2 p_A p_B) (\<lambda>s3.
    if p_B = None then
      bindE (rd_last s3 (this_data s3)) (\<lambda>l.
      bindE (set_prev s3 p_A l) (\<lambda>s4.
      set_last s4 (this_data s4) p_A))
    else
      bindE (rd_prev s3 p_B) (\<lambda>bp.
      bindE (set_prev s3 p_A bp) (\<lambda>s4.
      bindE (rd_prev s4 p_B) (\<lambda>bp4.
      bindE (if bp4 \<noteq> None then set_next s4 bp4 p_A
             else set_first s4 (this_data s4) p_A) (\<lambda>s5.
      set_prev s5 p_B p_A)))))))))"

text \<open>
  \<open>LinkedList::clear\<close> (lines 210 to 214): removes the front node while there is one.
\<close>

partial_function (option) clear :: "'v state \<Rightarrow> (error + 'v state) option" where
  "clear s =
    (case front_l s of Inl e \<Rightarrow> Some (Inl e)
     | Inr None \<Rightarrow> Some (Inr s)
     | Inr (Some a) \<Rightarrow>
        (case remove s (Some a) of Inl e \<Rightarrow> Some (Inl e)
         | Inr (ret, s1) \<Rightarrow> clear s1))"

subsection \<open>Traversals and the abstraction to a list of nodes\<close>

text \<open>
  \<open>seg f p as q\<close>: following the link field \<open>f\<close> from the pointer \<open>p\<close> visits the
  nodes \<open>as\<close> in this order and then arrives at \<open>q\<close>. \<open>path f p as\<close> is a traversal
  that ends at the null pointer, as the loop \<open>while (it) { ...; it = it->next(); }\<close>
  does it. The link fields of a heap are \<open>nexts\<close> and \<open>prevs\<close>.
\<close>

fun seg :: "(addr \<rightharpoonup> addr option) \<Rightarrow> addr option \<Rightarrow> addr list \<Rightarrow> addr option \<Rightarrow> bool" where
  "seg f p [] q = (p = q)"
| "seg f p (a # as) q =
     (p = Some a \<and> (case f a of None \<Rightarrow> False | Some r \<Rightarrow> seg f r as q))"

definition path :: "(addr \<rightharpoonup> addr option) \<Rightarrow> addr option \<Rightarrow> addr list \<Rightarrow> bool" where
  "path f p as = seg f p as None"

definition nexts :: "(addr \<rightharpoonup> 'v ListElement) \<Rightarrow> (addr \<rightharpoonup> addr option)" where
  "nexts h = (\<lambda>a. map_option next_ptr (h a))"

definition prevs :: "(addr \<rightharpoonup> 'v ListElement) \<Rightarrow> (addr \<rightharpoonup> addr option)" where
  "prevs h = (\<lambda>a. map_option prev_ptr (h a))"

definition last_opt :: "'a list \<Rightarrow> 'a option" where
  "last_opt xs = (if xs = [] then None else Some (last xs))"

definition hd_opt :: "'a list \<Rightarrow> 'a option" where
  "hd_opt xs = (case xs of [] \<Rightarrow> None | x # _ \<Rightarrow> Some x)"

text \<open>
  \<open>owned h d as\<close>: every node of \<open>as\<close> is allocated and its back-reference is \<open>d\<close>.
\<close>

definition owned :: "(addr \<rightharpoonup> 'v ListElement) \<Rightarrow> addr option \<Rightarrow> addr list \<Rightarrow> bool" where
  "owned h d as = list_all (\<lambda>a. case h a of None \<Rightarrow> False | Some e \<Rightarrow> data e = d) as"

text \<open>
  \<open>llist s as\<close>: the list object of the state \<open>s\<close> holds exactly the nodes \<open>as\<close>, front to
  back. An empty list has no storage (\<open>_data\<close> is null). Otherwise the storage is
  allocated, the forward traversal from \<open>first\<close> visits \<open>as\<close>, the backward traversal
  from \<open>last\<close> visits \<open>rev as\<close>, \<open>size_cache\<close> is the number of nodes, and every node
  refers back to the storage.
\<close>

definition llist :: "'v state \<Rightarrow> addr list \<Rightarrow> bool" where
  "llist s as =
    (case this_data s of None \<Rightarrow> as = []
     | Some d \<Rightarrow>
        (case datas s d of None \<Rightarrow> False
         | Some D \<Rightarrow>
            as \<noteq> [] \<and>
            path (nexts (elems s)) (first_el D) as \<and>
            path (prevs (elems s)) (last_el D) (rev as) \<and>
            size_cache D = int (length as) \<and>
            owned (elems s) (Some d) as))"

text \<open>The payloads stored in the nodes \<open>as\<close> (\<open>None\<close> for a node that is not allocated).\<close>

definition contents :: "'v state \<Rightarrow> addr list \<Rightarrow> 'v option list" where
  "contents s as = map (\<lambda>a. map_option val (elems s a)) as"

subsection \<open>Callers\<close>

text \<open>
  A caller's traversal: starting from a handle, collect the payload and step to the
  adjacent handle until the null pointer is reached; front to back it starts at
  \<open>front()\<close> and steps with \<open>next()\<close>, back to front it starts at \<open>back()\<close> and steps
  with \<open>prev()\<close>. On a cyclic chain the traversal does not return (\<open>None\<close>).
\<close>

partial_function (option) walk ::
  "(addr \<rightharpoonup> 'v ListElement) \<Rightarrow> ('v ListElement \<Rightarrow> addr option) \<Rightarrow> addr option \<Rightarrow> 'v list
     \<Rightarrow> (error + 'v list) option" where
  "walk h step it acc =
    (case it of None \<Rightarrow> Some (Inr acc)
     | Some a \<Rightarrow>
        (case h a of None \<Rightarrow> Some (Inl UseAfterFree)
         | Some e \<Rightarrow> walk h step (step e) (acc @ [val e])))"

definition front_to_back :: "'v state \<Rightarrow> (error + 'v list) option" where
  "front_to_back s =
    (case front_l s of Inl e \<Rightarrow> Some (Inl e) | Inr it \<Rightarrow> walk (elems s) next_ptr it [])"

definition back_to_front :: "'v state \<Rightarrow> (error + 'v list) option" where
  "back_to_front s =
    (case back_l s of Inl e \<Rightarrow> Some (Inl e) | Inr it \<Rightarrow> walk (elems s) prev_ptr it [])"

text \<open>
  Pushing a sequence of values at the back, each into the node the allocator hands out
  for it; removing a sequence of nodes; calling a void method \<open>k\<close> times.
\<close>

fun push_back_all :: "'v state \<Rightarrow> addr \<Rightarrow> (addr \<times> 'v) list \<Rightarrow> error + 'v state" where
  "push_back_all s d_new [] = Inr s"
| "push_back_all s d_new ((n, v) # nvs) =
     bindE (push_back s d_new n v) (\<lambda>(r, s'). push_back_all s' d_new nvs)"

fun remove_all :: "'v state \<Rightarrow> addr list \<Rightarrow> error + 'v state" where
  "remove_all s [] = Inr s"
| "remove_all s (a # bs) = bindE (remove s (Some a)) (\<lambda>(r, s'). remove_all s' bs)"

fun repeatedly :: "nat \<Rightarrow> ('v state \<Rightarrow> error + 'v state) \<Rightarrow> 'v state \<Rightarrow> error + 'v state" where
  "repeatedly 0 f s = Inr s"
| "repeatedly (Suc k) f s = bindE (f s) (repeatedly k f)"

text \<open>
  \<open>insert_before a b cs\<close>: the list \<open>cs\<close> with \<open>a\<close> put immediately before the first
  \<open>b\<close>.
\<close>

fun insert_before :: "'a \<Rightarrow> 'a \<Rightarrow> 'a list \<Rightarrow> 'a list" where
  "insert_before a b [] = []"
| "insert_before a b (c # cs) = (if c = b then a # c # cs else c # insert_before a b cs)"

text \<open>
  \<open>released s as\<close>: the state \<open>s\<close> with the nodes \<open>as\<close> and the storage of the list
  freed and \<open>_data\<close> null, which is the state of a freshly constructed list in the rest
  of the heap.
\<close>

definition released :: "'v state \<Rightarrow> addr list \<Rightarrow> 'v state" where
  "released s as =
     s\<lparr>elems := (\<lambda>a. if a \<in> set as then None else elems s a),
       datas := (case this_data s of None \<Rightarrow> datas s | Some d \<Rightarrow> (datas s)(d := None)),
       this_data := None\<rparr>"

text \<open>
  \<open>unchanged_count s s'\<close>: the list object still points to the same storage, the same
  nodes are allocated, and every \<open>ListData\<close> block has the \<open>size_cache\<close> it had.
\<close>

definition unchanged_count :: "'v state \<Rightarrow> 'v state \<Rightarrow> bool" where
  "unchanged_count s s' =
     (this_data s' = this_data s \<and> dom (elems s') = dom (elems s) \<and>
      (\<forall>d. map_option size_cache (datas s' d) = map_option size_cache (datas s d)))"

subsection \<open>Example states\<close>

text \<open>A freshly constructed list in an empty heap.\<close>

definition empty_list :: "nat state" where
  "empty_list = \<lparr>elems = Map.empty, datas = Map.empty, this_data = None\<rparr>"

text \<open>
  The list of the nodes 1, 2, 3 with the payloads 10, 20, 30 and its storage at
  address 0.
\<close>

definition abc_list :: "nat state" where
  "abc_list =
    \<lparr>elems = [1 \<mapsto> \<lparr>val = 10, next_ptr = Some 2, prev_ptr = None, data = Some 0\<rparr>,
              2 \<mapsto> \<lparr>val = 20, next_ptr = Some 3, prev_ptr = Some 1, data = Some 0\<rparr>,
              3 \<mapsto> \<lparr>val = 30, next_ptr = None, prev_ptr = Some 2, data = Some 0\<rparr>],
     datas = [0 \<mapsto> \<lparr>first_el = Some 1, last_el = Some 3, size_cache = 3\<rparr>],
     this_data = Some 0\<rparr>"

text \<open>
  The same list next to a one-node list of another \<open>LinkedList\<close>: node 7 with its
  storage at address 9.
\<close>

definition two_lists :: "nat state" where
  "two_lists =
    \<lparr>elems = [1 \<mapsto> \<lparr>val = 10, next_ptr = Some 2, prev_ptr = None, data = Some 0\<rparr>,
              2 \<mapsto> \<lparr>val = 20, next_ptr = Some 3, prev_ptr = Some 1, data = Some 0\<rparr>,
              3 \<mapsto> \<lparr>val = 30, next_ptr = None, prev_ptr = Some 2, data = Some 0\<rparr>,
              7 \<mapsto> \<lparr>val = 70, next_ptr = None, prev_ptr = None, data = Some 9\<rparr>],
     datas = [0 \<mapsto> \<lparr>first_el = Some 1, last_el = Some 3, size_cache = 3\<rparr>,
              9 \<mapsto> \<lparr>first_el = Some 7, last_el = Some 7, size_cache = 1\<rparr>],
     this_data = Some 0\<rparr>"

section \<open>Properties\<close>

subsection \<open>Traversals\<close>

lemma bindE_simps [simp]: "bindE (Inr x) f = f x" "bindE (Inl e) f = Inl e"
  by (simp_all add: bindE_def)

lemma seg_append: "seg f p (xs @ ys) r = (\<exists>q. seg f p xs q \<and> seg f q ys r)"
  by (induction xs arbitrary: p) (auto split: option.splits)

lemma seg_cong: "(\<And>a. a \<in> set as \<Longrightarrow> f a = g a) \<Longrightarrow> seg f p as q = seg g p as q"
  by (induction as arbitrary: p) (auto split: option.splits)

lemma seg_upd_other [simp]: "a \<notin> set as \<Longrightarrow> seg (f(a := v)) p as q = seg f p as q"
  by (rule seg_cong) auto

lemma path_Nil [simp]: "path f p [] = (p = None)"
  by (simp add: path_def)

lemma path_Cons: "path f p (a # as) = (p = Some a \<and> (\<exists>r. f a = Some r \<and> path f r as))"
  by (auto simp: path_def split: option.splits)

lemma path_hd: "path f p as \<Longrightarrow> p = hd_opt as"
  by (cases as) (auto simp: path_Cons hd_opt_def)

lemma path_unique: "path f p as \<Longrightarrow> path f p bs \<Longrightarrow> as = bs"
proof (induction as arbitrary: p bs)
  case Nil
  then show ?case by (cases bs) (auto simp: path_Cons)
next
  case (Cons a as)
  then show ?case by (cases bs) (auto simp: path_Cons)
qed

lemma path_append: "path f p (xs @ ys) = (\<exists>q. seg f p xs q \<and> path f q ys)"
  by (simp add: path_def seg_append)

lemma path_not_in_tail:
  assumes "f a = Some r" "path f r as" shows "a \<notin> set as"
proof
  assume "a \<in> set as"
  then obtain bs cs where as: "as = bs @ a # cs" by (auto simp: in_set_conv_decomp)
  with assms have "path f r cs" by (auto simp: path_append path_Cons)
  with assms(2) have "as = cs" by (rule path_unique)
  with as show False by simp
qed

lemma path_distinct: "path f p as \<Longrightarrow> distinct as"
  by (induction as arbitrary: p) (auto simp: path_Cons dest: path_not_in_tail)

lemma path_mid: "path f p (xs @ a # ys) \<Longrightarrow> f a = Some (hd_opt ys)"
  by (auto simp: path_append path_Cons dest: path_hd)

lemma nexts_upd [simp]: "nexts (h(a \<mapsto> e)) = (nexts h)(a \<mapsto> next_ptr e)"
  by (auto simp: nexts_def)

lemma prevs_upd [simp]: "prevs (h(a \<mapsto> e)) = (prevs h)(a \<mapsto> prev_ptr e)"
  by (auto simp: prevs_def)

lemma nexts_del [simp]: "nexts (h(a := None)) = (nexts h)(a := None)"
  by (auto simp: nexts_def)

lemma prevs_del [simp]: "prevs (h(a := None)) = (prevs h)(a := None)"
  by (auto simp: prevs_def)

lemma hd_opt_simps [simp]: "hd_opt [] = None" "hd_opt (x # xs) = Some x"
  by (simp_all add: hd_opt_def)

lemma last_opt_simps [simp]: "last_opt [] = None" "last_opt (xs @ [x]) = Some x"
  "last_opt (x # xs) = (if xs = [] then Some x else last_opt xs)"
  by (simp_all add: last_opt_def)

lemma last_opt_append [simp]:
  "last_opt (xs @ ys) = (if ys = [] then last_opt xs else last_opt ys)"
  by (simp add: last_opt_def)

lemma hd_opt_mem: "hd_opt xs = Some a \<Longrightarrow> a \<in> set xs"
  by (cases xs) auto

lemma last_opt_mem: "last_opt xs = Some a \<Longrightarrow> a \<in> set xs"
  by (auto simp: last_opt_def split: if_splits)

lemma hd_opt_rev [simp]: "hd_opt (rev xs) = last_opt xs"
  by (cases xs rule: rev_cases) simp_all

lemma hd_opt_append [simp]: "hd_opt (xs @ ys) = (if xs = [] then hd_opt ys else hd_opt xs)"
  by (cases xs) simp_all

lemma owned_append [simp]: "owned h d (xs @ ys) = (owned h d xs \<and> owned h d ys)"
  by (simp add: owned_def)

lemma owned_Cons: "owned h d (a # as) = ((\<exists>e. h a = Some e \<and> data e = d) \<and> owned h d as)"
  by (auto simp: owned_def split: option.splits)

lemma owned_Nil [simp]: "owned h d []"
  by (simp add: owned_def)

lemma owned_cong: "(\<And>a. a \<in> set as \<Longrightarrow> map_option data (h a) = map_option data (g a)) \<Longrightarrow> owned h d as = owned g d as"
  by (induction as) (auto simp: owned_Cons, (metis option.map_disc_iff option.map_sel option.sel not_Some_eq)+)

text \<open>What \<open>llist\<close> says about one node and the storage.\<close>

lemma llist_node:
  assumes "llist s (xs @ a # ys)"
  shows "\<exists>d D e. this_data s = Some d \<and> datas s d = Some D \<and>
           first_el D = hd_opt (xs @ [a]) \<and> last_el D = last_opt (a # ys) \<and>
           size_cache D = int (length xs) + 1 + int (length ys) \<and>
           elems s a = Some e \<and> next_ptr e = hd_opt ys \<and> prev_ptr e = last_opt xs \<and>
           data e = Some d"
proof -
  from assms obtain d D where d: "this_data s = Some d" "datas s d = Some D"
    and fw: "path (nexts (elems s)) (first_el D) (xs @ a # ys)"
    and bw: "path (prevs (elems s)) (last_el D) (rev ys @ a # rev xs)"
    and sz: "size_cache D = int (length (xs @ a # ys))"
    and ow: "owned (elems s) (Some d) (xs @ a # ys)"
    by (auto simp: llist_def split: option.splits)
  from ow obtain e where e: "elems s a = Some e" "data e = Some d"
    by (auto simp: owned_Cons)
  from path_mid[OF fw] e have n: "next_ptr e = hd_opt ys" by (simp add: nexts_def)
  from path_mid[OF bw] e have p: "prev_ptr e = last_opt xs" by (simp add: prevs_def)
  from path_hd[OF fw] have f: "first_el D = hd_opt (xs @ [a])" by (cases xs) simp_all
  from path_hd[OF bw] have l: "last_el D = last_opt (a # ys)"
    by (cases ys rule: rev_cases) simp_all
  from d e n p f l sz show ?thesis by simp
qed

lemma llist_distinct: "llist s as \<Longrightarrow> distinct as"
  by (auto simp: llist_def split: option.splits dest: path_distinct)

lemma path_upd_other [simp]: "a \<notin> set as \<Longrightarrow> path (f(a := v)) p as = path f p as"
  by (simp add: path_def)

lemma owned_upd_other [simp]: "a \<notin> set as \<Longrightarrow> owned (h(a := v)) d as = owned h d as"
  by (rule owned_cong) auto

lemma nexts_apply [simp]: "nexts h a = map_option next_ptr (h a)"
  by (simp add: nexts_def)

lemma prevs_apply [simp]: "prevs h a = map_option prev_ptr (h a)"
  by (simp add: prevs_def)

lemmas prims = elem_at_def data_at_def rd_next_def rd_prev_def rd_data_def rd_first_def rd_last_def rd_size_def
  set_next_def set_prev_def set_first_def set_last_def set_size_def memdelete_elem_def memdelete_data_def

lemma llist_Nil [simp]: "llist s [] = (this_data s = None)"
  by (auto simp: llist_def split: option.splits)

lemma llist_allocated: "llist s as \<Longrightarrow> set as \<subseteq> dom (elems s)"
  by (auto simp: llist_def owned_def list_all_iff split: option.splits)

lemma llist_snoc_parts:
  assumes "llist s (xs @ [x])"
  shows "\<exists>d D. this_data s = Some d \<and> datas s d = Some D \<and>
     path (nexts (elems s)) (first_el D) (xs @ [x]) \<and>
     path (prevs (elems s)) (last_el D) (x # rev xs) \<and> owned (elems s) (Some d) (xs @ [x])"
  using assms by (auto simp: llist_def split: option.splits)

lemma llist_parts:
  assumes "llist s as" "as \<noteq> []"
  shows "\<exists>d D. this_data s = Some d \<and> datas s d = Some D \<and>
     path (nexts (elems s)) (first_el D) as \<and>
     path (prevs (elems s)) (last_el D) (rev as) \<and> owned (elems s) (Some d) as"
  using assms by (auto simp: llist_def split: option.splits)

subsection \<open>Traversing and searching\<close>

lemma walk_path:
  "path (\<lambda>a. map_option step (h a)) p as \<Longrightarrow> map (\<lambda>a. map_option val (h a)) as = map Some vs \<Longrightarrow>
     walk h step p acc = Some (Inr (acc @ vs))"
proof (induction as arbitrary: p acc vs)
  case Nil
  then show ?case by (simp add: walk.simps)
next
  case (Cons a as)
  from Cons.prems obtain e r where e: "p = Some a" "h a = Some e" "step e = r"
    and r: "path (\<lambda>a. map_option step (h a)) r as"
    by (auto simp: path_Cons)
  from Cons.prems(2) e obtain vs' where vs: "vs = val e # vs'"
    "map (\<lambda>a. map_option val (h a)) as = map Some vs'"
    by (cases vs) auto
  from Cons.IH[OF r vs(2), of "acc @ [val e]"] e vs show ?case
    by (subst walk.simps) simp
qed

lemma find_loop_path:
  "path (nexts (elems s)) p as \<Longrightarrow>
     find_loop s p v = Some (Inr (List.find (\<lambda>a. map_option val (elems s a) = Some v) as))"
proof (induction as arbitrary: p)
  case Nil
  then show ?case by (simp add: find_loop.simps)
next
  case (Cons a as)
  from Cons.prems obtain r where p: "p = Some a" and fa: "nexts (elems s) a = Some r"
    and r: "path (nexts (elems s)) r as"
    by (auto simp: path_Cons simp del: nexts_apply)
  from fa obtain e where e: "elems s a = Some e" "next_ptr e = r" by auto
  from Cons.IH[OF r] p e show ?case
    by (subst find_loop.simps) simp
qed

lemma llist_front: "llist s as \<Longrightarrow> front_l s = Inr (hd_opt as)"
  by (cases as) (auto simp: front_l_def prims dest!: llist_node[of s "[]", simplified])

lemma llist_back: "llist s as \<Longrightarrow> back_l s = Inr (last_opt as)"
  by (cases as rule: rev_cases) (auto simp: back_l_def prims dest!: llist_node[of s _ _ "[]"])

lemma llist_size: "llist s as \<Longrightarrow> size_l s = Inr (int (length as))"
  by (cases as) (auto simp: size_l_def prims dest!: llist_node[of s "[]", simplified])

subsection \<open>Removing a node\<close>

lemma remove_llist:
  assumes L: "llist s (xs @ a # ys)"
  shows "\<exists>s'. remove s (Some a) = Inr (True, s') \<and> llist s' (xs @ ys) \<and>
           elems s' a = None \<and>
           (\<forall>b. b \<noteq> a \<longrightarrow> map_option val (elems s' b) = map_option val (elems s b)) \<and>
           (\<forall>b. b \<notin> set (xs @ a # ys) \<longrightarrow> elems s' b = elems s b) \<and>
           (\<forall>d. this_data s \<noteq> Some d \<longrightarrow> datas s' d = datas s d) \<and>
           (xs @ ys = [] \<longrightarrow> (\<forall>d. this_data s = Some d \<longrightarrow> datas s' d = None)) \<and>
           (xs @ ys \<noteq> [] \<longrightarrow> this_data s' = this_data s)"
proof -
  from llist_node[OF L] obtain d D e where
    d: "this_data s = Some d" "datas s d = Some D" "first_el D = hd_opt (xs @ [a])"
       "last_el D = last_opt (a # ys)" "size_cache D = int (length xs) + 1 + int (length ys)"
    and e: "elems s a = Some e" "next_ptr e = hd_opt ys" "prev_ptr e = last_opt xs" "data e = Some d"
    by auto
  from llist_parts[OF L] d have
    fw: "path (nexts (elems s)) (first_el D) (xs @ a # ys)" and
    bw: "path (prevs (elems s)) (last_el D) (rev ys @ a # rev xs)" and
    ow: "owned (elems s) (Some d) (xs @ a # ys)" by auto
  from llist_distinct[OF L] have dis: "distinct (xs @ a # ys)" .
  show ?thesis
  proof (cases xs rule: rev_cases)
    case Nil
    note xs = Nil
    show ?thesis
    proof (cases ys)
      case Nil
      show ?thesis using d e fw bw ow dis xs Nil
        by (simp add: remove_def ListData_erase_def prims)
    next
      case (Cons y ys')
      from L Cons have "llist s ((xs @ [a]) @ y # ys')" by simp
      from llist_node[OF this] obtain ey where
        ey: "elems s y = Some ey" "next_ptr ey = hd_opt ys'" "prev_ptr ey = Some a" "data ey = Some d"
        using d by auto
      show ?thesis using d e ey fw bw ow dis xs Cons
        apply (simp add: remove_def ListData_erase_def prims llist_def)
        apply (auto simp: path_Cons path_append seg_append owned_Cons dest: hd_opt_mem last_opt_mem)
        done
    qed
  next
    case (snoc xs' x)
    note xs = snoc
    from L snoc have "llist s (xs' @ x # (a # ys))" by simp
    from llist_node[OF this] obtain ex where
      ex: "elems s x = Some ex" "next_ptr ex = Some a" "prev_ptr ex = last_opt xs'" "data ex = Some d"
      using d by auto
    show ?thesis
    proof (cases ys)
      case Nil
      show ?thesis using d e ex fw bw ow dis xs Nil
        apply (simp add: remove_def ListData_erase_def prims llist_def)
        apply (auto simp: path_Cons path_append seg_append owned_Cons dest: hd_opt_mem last_opt_mem)
        done
    next
      case (Cons y ys')
      from L Cons have "llist s ((xs @ [a]) @ y # ys')" by simp
      from llist_node[OF this] obtain ey where
        ey: "elems s y = Some ey" "next_ptr ey = hd_opt ys'" "prev_ptr ey = Some a" "data ey = Some d"
        using d by auto
      show ?thesis using d e ex ey fw bw ow dis xs Cons
        apply (simp add: remove_def ListData_erase_def prims llist_def)
        apply (auto simp: path_Cons path_append seg_append owned_Cons dest: hd_opt_mem last_opt_mem)
        done
    qed
  qed
qed

subsection \<open>Emptying the list\<close>

lemma released_Nil: "this_data s = None \<Longrightarrow> released s [] = s"
  by (simp add: released_def)

lemma remove_released:
  assumes L: "llist s (xs @ a # ys)"
  shows "\<exists>s'. remove s (Some a) = Inr (True, s') \<and> llist s' (xs @ ys) \<and>
           released s' (xs @ ys) = released s (xs @ a # ys)"
proof -
  from remove_llist[OF L] obtain s' where
    r: "remove s (Some a) = Inr (True, s')" and L': "llist s' (xs @ ys)" and
    a: "elems s' a = None" and
    fr: "\<forall>b. b \<notin> set (xs @ a # ys) \<longrightarrow> elems s' b = elems s b" and
    od: "\<forall>d. this_data s \<noteq> Some d \<longrightarrow> datas s' d = datas s d" and
    em: "xs @ ys = [] \<longrightarrow> (\<forall>d. this_data s = Some d \<longrightarrow> datas s' d = None)" and
    ne: "xs @ ys \<noteq> [] \<longrightarrow> this_data s' = this_data s"
    by blast
  from llist_node[OF L] obtain d where d: "this_data s = Some d" by blast
  have e: "(\<lambda>b. if b \<in> set (xs @ ys) then None else elems s' b) =
           (\<lambda>b. if b \<in> set (xs @ a # ys) then None else elems s b)"
    using a fr by (auto simp: fun_eq_iff)
  have dd: "(case this_data s' of None \<Rightarrow> datas s' | Some d \<Rightarrow> (datas s')(d := None)) = (datas s)(d := None)"
  proof (cases "xs @ ys = []")
    case True
    with L' have "this_data s' = None" by simp
    with True em od d show ?thesis by (auto simp: fun_eq_iff)
  next
    case False
    with ne d have "this_data s' = Some d" by simp
    with od d show ?thesis by (auto simp: fun_eq_iff)
  qed
  have "released s' (xs @ ys) = released s (xs @ a # ys)"
    unfolding released_def e dd using d
    by (intro state.equality) simp_all
  with r L' show ?thesis by blast
qed

lemma clear_llist: "llist s as \<Longrightarrow> clear s = Some (Inr (released s as))"
proof (induction as arbitrary: s)
  case Nil
  then show ?case by (subst clear.simps) (simp add: front_l_def released_Nil)
next
  case (Cons a as)
  from Cons.prems have L: "llist s ([] @ a # as)" by simp
  from remove_released[OF L] obtain s' where
    r: "remove s (Some a) = Inr (True, s')" and L': "llist s' as" and
    rel: "released s' as = released s (a # as)" by auto
  from llist_front[OF Cons.prems] have f: "front_l s = Inr (Some a)" by simp
  from Cons.IH[OF L'] r f rel show ?case
    by (subst clear.simps) simp
qed

lemma pop_back_llist:
  assumes L: "llist s (xs @ [x])"
  shows "\<exists>s'. pop_back s = Inr s' \<and> remove s (Some x) = Inr (True, s')"
proof -
  from remove_llist[of s xs x "[]"] L obtain s' where r: "remove s (Some x) = Inr (True, s')"
    by auto
  from llist_back[OF L] have "back_l s = Inr (Some x)" by simp
  with r show ?thesis
    by (auto simp: pop_back_def back_l_def split: if_splits)
qed

lemma pop_front_llist:
  assumes L: "llist s (x # xs)"
  shows "\<exists>s'. pop_front s = Inr s' \<and> remove s (Some x) = Inr (True, s')"
proof -
  from remove_llist[of s "[]" x xs] L obtain s' where r: "remove s (Some x) = Inr (True, s')"
    by auto
  from llist_front[OF L] have "front_l s = Inr (Some x)" by simp
  with r show ?thesis
    by (auto simp: pop_front_def front_l_def split: if_splits)
qed

lemma repeatedly_pop_back: "llist s as \<Longrightarrow> repeatedly (length as) pop_back s = Inr (released s as)"
proof (induction as arbitrary: s rule: rev_induct)
  case Nil
  then show ?case by (simp add: released_Nil)
next
  case (snoc x xs)
  from pop_back_llist[OF snoc.prems] obtain s' where
    p: "pop_back s = Inr s'" and r: "remove s (Some x) = Inr (True, s')" by blast
  from remove_released[of s xs x "[]"] snoc.prems r have
    L': "llist s' xs" and rel: "released s' xs = released s (xs @ [x])" by auto
  from snoc.IH[OF L'] p rel show ?case by simp
qed

lemma repeatedly_pop_front: "llist s as \<Longrightarrow> repeatedly (length as) pop_front s = Inr (released s as)"
proof (induction as arbitrary: s)
  case Nil
  then show ?case by (simp add: released_Nil)
next
  case (Cons x xs)
  from pop_front_llist[OF Cons.prems] obtain s' where
    p: "pop_front s = Inr s'" and r: "remove s (Some x) = Inr (True, s')" by blast
  from remove_released[of s "[]" x xs] Cons.prems r have
    L': "llist s' xs" and rel: "released s' xs = released s (x # xs)" by auto
  from Cons.IH[OF L'] p rel show ?case by simp
qed

lemma remove_all_released:
  "llist s as \<Longrightarrow> distinct bs \<Longrightarrow> set bs = set as \<Longrightarrow> remove_all s bs = Inr (released s as)"
proof (induction bs arbitrary: s as)
  case Nil
  then show ?case by (simp add: released_Nil)
next
  case (Cons b bs)
  from Cons.prems have "b \<in> set as" by auto
  then obtain xs ys where as: "as = xs @ b # ys" by (auto simp: in_set_conv_decomp)
  from llist_distinct[OF Cons.prems(1)] as have dis: "b \<notin> set xs" "b \<notin> set ys" by auto
  from remove_released[of s xs b ys] Cons.prems(1) as obtain s' where
    r: "remove s (Some b) = Inr (True, s')" and L': "llist s' (xs @ ys)" and
    rel: "released s' (xs @ ys) = released s as" by auto
  from Cons.prems as dis have "set bs = set (xs @ ys)" "distinct bs" by auto
  from Cons.IH[OF L' this(2) this(1)] r rel show ?case by simp
qed

subsection \<open>Pushing\<close>

lemma push_back_llist:
  assumes "llist s as" and "n \<notin> dom (elems s)"
  shows "\<exists>s'. push_back s d_new n v = Inr (Some n, s') \<and> llist s' (as @ [n]) \<and>
           map_option val (elems s' n) = Some v \<and>
           (\<forall>a. a \<noteq> n \<longrightarrow> map_option val (elems s' a) = map_option val (elems s a)) \<and>
           dom (elems s') = insert n (dom (elems s))"
proof (cases as rule: rev_cases)
  case Nil
  with assms have td: "this_data s = None" by simp
  show ?thesis unfolding Nil using td
    by (simp add: push_back_def alloc_data_def prims llist_def path_Cons owned_Cons)
next
  case (snoc xs x)
  from assms(1) snoc have L: "llist s (xs @ x # [])" by simp
  from llist_node[OF L] obtain d D e where
    d: "this_data s = Some d" "datas s d = Some D" "last_el D = Some x" "first_el D = hd_opt (xs @ [x])"
       "size_cache D = int (length xs) + 1"
    and e: "elems s x = Some e" "next_ptr e = None" "data e = Some d"
    by auto
  from llist_allocated[OF assms(1)] assms(2) snoc have nx: "n \<noteq> x" "n \<notin> set xs" by auto
  from llist_distinct[OF assms(1)] snoc have dx: "x \<notin> set xs" by auto
  from llist_snoc_parts[OF L[simplified]] d have
    fw: "path (nexts (elems s)) (first_el D) (xs @ [x])" and
    bw: "path (prevs (elems s)) (Some x) (x # rev xs)" and
    ow: "owned (elems s) (Some d) (xs @ [x])" by auto
  have f: "first_el D \<noteq> None" using d(4) by (cases xs) auto
  show ?thesis using d e nx dx f fw bw ow snoc
    apply (simp add: push_back_def alloc_data_def prims llist_def path_Cons owned_Cons path_append seg_append)
    apply (auto simp: path_Cons domI insert_absorb)
    done
qed

lemma push_front_llist:
  assumes "llist s as" and "n \<notin> dom (elems s)"
  shows "\<exists>s'. push_front s d_new n v = Inr (Some n, s') \<and> llist s' (n # as) \<and>
           map_option val (elems s' n) = Some v \<and>
           (\<forall>a. a \<noteq> n \<longrightarrow> map_option val (elems s' a) = map_option val (elems s a)) \<and>
           dom (elems s') = insert n (dom (elems s))"
proof (cases as)
  case Nil
  with assms have td: "this_data s = None" by simp
  show ?thesis unfolding Nil using td
    by (simp add: push_front_def alloc_data_def prims llist_def path_Cons owned_Cons)
next
  case (Cons x xs)
  from assms(1) Cons have L: "llist s ([] @ x # xs)" by simp
  from llist_node[OF L] obtain d D e where
    d: "this_data s = Some d" "datas s d = Some D" "first_el D = Some x" "last_el D = last_opt (x # xs)"
       "size_cache D = 1 + int (length xs)"
    and e: "elems s x = Some e" "prev_ptr e = None" "data e = Some d"
    by auto
  from llist_allocated[OF assms(1)] assms(2) Cons have nx: "n \<noteq> x" "n \<notin> set xs" by auto
  from llist_distinct[OF assms(1)] Cons have dx: "x \<notin> set xs" by auto
  from llist_parts[OF L] d have
    fw: "path (nexts (elems s)) (Some x) (x # xs)" and
    bw: "path (prevs (elems s)) (last_el D) (rev xs @ [x])" and
    ow: "owned (elems s) (Some d) (x # xs)" by auto
  have l: "last_el D \<noteq> None" using d(4) by (auto split: if_splits simp: last_opt_def)
  show ?thesis using d(1,2,3,5) e nx dx l fw bw ow Cons
    apply (simp add: push_front_def alloc_data_def prims llist_def path_Cons owned_Cons path_append seg_append)
    apply (auto simp: path_Cons domI insert_absorb)
    done
qed

subsection \<open>What the splice leaves alone\<close>

lemma bindE_Inr_iff: "bindE m f = Inr y \<longleftrightarrow> (\<exists>x. m = Inr x \<and> f x = Inr y)"
  by (cases m) simp_all

lemma unchanged_count_refl [simp]: "unchanged_count s s"
  by (simp add: unchanged_count_def)

lemma unchanged_count_trans: "unchanged_count s t \<Longrightarrow> unchanged_count t u \<Longrightarrow> unchanged_count s u"
  by (simp add: unchanged_count_def)

lemma set_next_count: "set_next s p q = Inr s' \<Longrightarrow> unchanged_count s s'"
  by (auto simp: set_next_def unchanged_count_def split: option.splits if_splits)

lemma set_prev_count: "set_prev s p q = Inr s' \<Longrightarrow> unchanged_count s s'"
  by (auto simp: set_prev_def unchanged_count_def split: option.splits if_splits)

lemma set_first_count: "set_first s p q = Inr s' \<Longrightarrow> unchanged_count s s'"
  by (auto simp: set_first_def unchanged_count_def split: option.splits if_splits)

lemma set_last_count: "set_last s p q = Inr s' \<Longrightarrow> unchanged_count s s'"
  by (auto simp: set_last_def unchanged_count_def split: option.splits if_splits)

lemmas set_counts = set_next_count set_prev_count set_first_count set_last_count

lemma move_before_count:
  assumes "move_before s p_A p_B = Inr s'" shows "unchanged_count s s'"
proof -
  from assms obtain ap s1 an s2 s3 where
    st1: "(if ap \<noteq> None then bindE (rd_next s p_A) (set_next s ap)
           else bindE (rd_next s p_A) (set_first s (this_data s))) = Inr s1" and
    st2: "(if an \<noteq> None then bindE (rd_prev s1 p_A) (set_prev s1 an)
           else bindE (rd_prev s1 p_A) (set_last s1 (this_data s1))) = Inr s2" and
    st3: "set_next s2 p_A p_B = Inr s3" and
    st4: "(if p_B = None then
      bindE (rd_last s3 (this_data s3)) (\<lambda>l.
      bindE (set_prev s3 p_A l) (\<lambda>s4.
      set_last s4 (this_data s4) p_A))
    else
      bindE (rd_prev s3 p_B) (\<lambda>bp.
      bindE (set_prev s3 p_A bp) (\<lambda>s4.
      bindE (rd_prev s4 p_B) (\<lambda>bp4.
      bindE (if bp4 \<noteq> None then set_next s4 bp4 p_A
             else set_first s4 (this_data s4) p_A) (\<lambda>s5.
      set_prev s5 p_B p_A))))) = Inr s'"
    unfolding move_before_def bindE_Inr_iff by blast
  from st1 have 1: "unchanged_count s s1"
    by (auto simp: bindE_Inr_iff split: if_splits dest!: set_counts)
  from st2 have 2: "unchanged_count s1 s2"
    by (auto simp: bindE_Inr_iff split: if_splits dest!: set_counts)
  from st3 have 3: "unchanged_count s2 s3" by (rule set_next_count)
  have 4: "unchanged_count s3 s'"
  proof (cases "p_B = None")
    case True
    with st4 show ?thesis
      by (auto simp: bindE_Inr_iff dest!: set_counts intro: unchanged_count_trans)
  next
    case False
    with st4 obtain s4 bp4 s5 where
      a: "unchanged_count s3 s4" and
      b: "(if bp4 \<noteq> None then set_next s4 bp4 p_A
             else set_first s4 (this_data s4) p_A) = Inr s5" and
      c: "unchanged_count s5 s'"
      by (auto simp: bindE_Inr_iff dest!: set_prev_count)
    from b have "unchanged_count s4 s5" by (auto split: if_splits dest!: set_counts)
    with a c show ?thesis by (blast intro: unchanged_count_trans)
  qed
  from 1 2 3 4 show ?thesis by (blast intro: unchanged_count_trans)
qed

lemma size_l_unchanged: "unchanged_count s s' \<Longrightarrow> size_l s' = size_l s"
  unfolding size_l_def unchanged_count_def rd_size_def data_at_def
  by (auto split: option.splits dest: spec[of _ "the (this_data s)"])

lemma llist_abc_list: "llist abc_list [1, 2, 3]"
  by (simp add: abc_list_def llist_def path_Cons owned_Cons)

subsection \<open>Moving a node to an end\<close>

lemma move_to_back_llist:
  assumes L: "llist s (xs @ a # ys)"
  shows "\<exists>s'. move_to_back s (Some a) = Inr s' \<and> llist s' (xs @ ys @ [a]) \<and>
           (\<forall>b. map_option val (elems s' b) = map_option val (elems s b)) \<and>
           unchanged_count s s' \<and> (ys = [] \<longrightarrow> s' = s)"
proof -
  from llist_node[OF L] obtain d D e where
    d: "this_data s = Some d" "datas s d = Some D" "first_el D = hd_opt (xs @ [a])"
       "last_el D = last_opt (a # ys)" "size_cache D = int (length xs) + 1 + int (length ys)"
    and e: "elems s a = Some e" "next_ptr e = hd_opt ys" "prev_ptr e = last_opt xs" "data e = Some d"
    by auto
  from llist_parts[OF L] d have
    fw: "path (nexts (elems s)) (first_el D) (xs @ a # ys)" and
    bw: "path (prevs (elems s)) (last_el D) (rev ys @ a # rev xs)" and
    ow: "owned (elems s) (Some d) (xs @ a # ys)" by auto
  from llist_distinct[OF L] have dis: "distinct (xs @ a # ys)" .
  show ?thesis
  proof (cases ys)
    case Nil
    with d e L show ?thesis by (simp add: move_to_back_def prims)
  next
    case (Cons y ys')
    note ys = Cons
    from L Cons have "llist s ((xs @ [a]) @ y # ys')" by simp
    from llist_node[OF this] obtain ey where
      ey: "elems s y = Some ey" "next_ptr ey = hd_opt ys'" "prev_ptr ey = Some a" "data ey = Some d"
      using d by auto
    show ?thesis
    proof (cases xs rule: rev_cases)
      case Nil
      note xs = Nil
      show ?thesis
      proof (cases ys' rule: rev_cases)
        case Nil
        show ?thesis using d e ey fw bw ow dis xs ys Nil
          apply (simp add: move_to_back_def prims llist_def unchanged_count_def)
          apply (auto simp: path_Cons path_append seg_append owned_Cons dest: hd_opt_mem last_opt_mem)
          done
      next
        case (snoc zs z)
        from L ys snoc have "llist s ((xs @ a # y # zs) @ z # [])" by simp
        from llist_node[OF this] obtain ez where
          ez: "elems s z = Some ez" "next_ptr ez = None" "prev_ptr ez = last_opt (y # zs)" "data ez = Some d"
          using d by auto
        show ?thesis using d e ey ez fw bw ow dis xs ys snoc
          apply (simp add: move_to_back_def prims llist_def unchanged_count_def)
          apply (auto simp: path_Cons path_append seg_append owned_Cons dest: hd_opt_mem last_opt_mem)
          done
      qed
    next
      case (snoc xs' x)
      note xs = snoc
      from L snoc have "llist s (xs' @ x # (a # ys))" by simp
      from llist_node[OF this] obtain ex where
        ex: "elems s x = Some ex" "next_ptr ex = Some a" "prev_ptr ex = last_opt xs'" "data ex = Some d"
        using d by auto
      show ?thesis
      proof (cases ys' rule: rev_cases)
        case Nil
        show ?thesis using d e ex ey fw bw ow dis xs ys Nil
          apply (simp add: move_to_back_def prims llist_def unchanged_count_def)
          apply (auto simp: path_Cons path_append seg_append owned_Cons dest: hd_opt_mem last_opt_mem)
          done
      next
        case (snoc zs z)
        from L ys snoc have "llist s ((xs @ a # y # zs) @ z # [])" by simp
        from llist_node[OF this] obtain ez where
          ez: "elems s z = Some ez" "next_ptr ez = None" "prev_ptr ez = last_opt (y # zs)" "data ez = Some d"
          using d by auto
        show ?thesis using d e ex ey ez fw bw ow dis xs ys snoc
          apply (simp add: move_to_back_def prims llist_def unchanged_count_def)
          apply (auto simp: path_Cons path_append seg_append owned_Cons dest: hd_opt_mem last_opt_mem)
          done
      qed
    qed
  qed
qed

lemma move_to_front_llist:
  assumes L: "llist s (xs @ a # ys)"
  shows "\<exists>s'. move_to_front s (Some a) = Inr s' \<and> llist s' (a # xs @ ys) \<and>
           (\<forall>b. map_option val (elems s' b) = map_option val (elems s b)) \<and>
           unchanged_count s s' \<and> (xs = [] \<longrightarrow> s' = s)"
proof -
  from llist_node[OF L] obtain d D e where
    d: "this_data s = Some d" "datas s d = Some D" "first_el D = hd_opt (xs @ [a])"
       "last_el D = last_opt (a # ys)" "size_cache D = int (length xs) + 1 + int (length ys)"
    and e: "elems s a = Some e" "next_ptr e = hd_opt ys" "prev_ptr e = last_opt xs" "data e = Some d"
    by auto
  from llist_parts[OF L] d have
    fw: "path (nexts (elems s)) (first_el D) (xs @ a # ys)" and
    bw: "path (prevs (elems s)) (last_el D) (rev ys @ a # rev xs)" and
    ow: "owned (elems s) (Some d) (xs @ a # ys)" by auto
  from llist_distinct[OF L] have dis: "distinct (xs @ a # ys)" .
  show ?thesis
  proof (cases xs rule: rev_cases)
    case Nil
    with d e L show ?thesis by (simp add: move_to_front_def prims)
  next
    case (snoc xs' x)
    note xs = snoc
    from L snoc have "llist s (xs' @ x # (a # ys))" by simp
    from llist_node[OF this] obtain ex where
      ex: "elems s x = Some ex" "next_ptr ex = Some a" "prev_ptr ex = last_opt xs'" "data ex = Some d"
      using d by auto
    show ?thesis
    proof (cases ys)
      case Nil
      note ys = Nil
      show ?thesis
      proof (cases xs')
        case Nil
        show ?thesis using d e ex fw bw ow dis xs ys Nil
          apply (simp add: move_to_front_def prims llist_def unchanged_count_def)
          apply (auto simp: path_Cons path_append seg_append owned_Cons dest: hd_opt_mem last_opt_mem)
          done
      next
        case (Cons w ws)
        from L xs Cons have "llist s ([] @ w # (ws @ x # a # ys))" by simp
        from llist_node[OF this] obtain ew where
          ew: "elems s w = Some ew" "next_ptr ew = hd_opt (ws @ [x])" "prev_ptr ew = None" "data ew = Some d"
          using d by auto
        show ?thesis using d e ex ew fw bw ow dis xs ys Cons
          apply (simp add: move_to_front_def prims llist_def unchanged_count_def)
          apply (auto simp: path_Cons path_append seg_append owned_Cons dest: hd_opt_mem last_opt_mem)
          done
      qed
    next
      case (Cons y ys')
      note ys = Cons
      from L Cons have "llist s ((xs @ [a]) @ y # ys')" by simp
      from llist_node[OF this] obtain ey where
        ey: "elems s y = Some ey" "next_ptr ey = hd_opt ys'" "prev_ptr ey = Some a" "data ey = Some d"
        using d by auto
      show ?thesis
      proof (cases xs')
        case Nil
        show ?thesis using d e ex ey fw bw ow dis xs ys Nil
          apply (simp add: move_to_front_def prims llist_def unchanged_count_def)
          apply (auto simp: path_Cons path_append seg_append owned_Cons dest: hd_opt_mem last_opt_mem)
          done
      next
        case (Cons w ws)
        from L xs Cons have "llist s ([] @ w # (ws @ x # a # ys))" by simp
        from llist_node[OF this] obtain ew where
          ew: "elems s w = Some ew" "next_ptr ew = hd_opt (ws @ [x])" "prev_ptr ew = None" "data ew = Some d"
          using d by auto
        show ?thesis using d e ex ey ew fw bw ow dis xs ys Cons
          apply (simp add: move_to_front_def prims llist_def unchanged_count_def)
          apply (auto simp: path_Cons path_append seg_append owned_Cons dest: hd_opt_mem last_opt_mem)
          done
      qed
    qed
  qed
qed

subsection \<open>Splicing a node before another\<close>

text \<open>
  One lemma for each shape of the list around the two nodes: \<open>a\<close> before \<open>b\<close>
  (\<open>fwd\<close>), \<open>b\<close> before \<open>a\<close> (\<open>bwd\<close>), and the calls with a null second handle or
  with the node itself, of which only that they return is shown.
\<close>

lemma move_before_fwd_1:
  assumes L: "llist s (a # b # zs)"
  shows "\<exists>s'. move_before s (Some a) (Some b) = Inr s' \<and> llist s' (a # b # zs) \<and>
           (\<forall>c. map_option val (elems s' c) = map_option val (elems s c))"
proof -
  from L obtain d D where d: "this_data s = Some d" "datas s d = Some D"
    and fw: "path (nexts (elems s)) (first_el D) (a # b # zs)"
    and bw: "path (prevs (elems s)) (last_el D) (rev (a # b # zs))"
    and sz: "size_cache D = int (length (a # b # zs))"
    and ow: "owned (elems s) (Some d) (a # b # zs)"
    by (auto simp: llist_def split: option.splits)
  from path_hd[OF fw] have fi: "first_el D = Some a" by simp
  from path_hd[OF bw] have la: "last_el D = last_opt (b # zs)" by simp
  from L have "llist s ([] @ a # (b # zs))" by simp
  from llist_node[OF this] d obtain ea where
    ea: "elems s a = Some ea" "next_ptr ea = Some b" "prev_ptr ea = None"
      "data ea = Some d"
    by auto
  from L have "llist s ([a] @ b # zs)" by simp
  from llist_node[OF this] d obtain eb where
    eb: "elems s b = Some eb" "next_ptr eb = hd_opt zs" "prev_ptr eb = Some a"
      "data eb = Some d"
    by auto
  from llist_distinct[OF L] have
    dis: "a \<noteq> b" "a \<notin> set zs" "b \<notin> set zs" "distinct zs"
    by auto
  show ?thesis using dis d fi la sz ea eb fw bw ow
    apply (simp add: move_before_def prims llist_def)
    apply (auto simp: path_Cons path_append seg_append owned_Cons dest: hd_opt_mem last_opt_mem)
    done
qed

lemma move_before_fwd_2:
  assumes L: "llist s (a # y # b # zs)"
  shows "\<exists>s'. move_before s (Some a) (Some b) = Inr s' \<and> llist s' (y # a # b # zs) \<and>
           (\<forall>c. map_option val (elems s' c) = map_option val (elems s c))"
proof -
  from L obtain d D where d: "this_data s = Some d" "datas s d = Some D"
    and fw: "path (nexts (elems s)) (first_el D) (a # y # b # zs)"
    and bw: "path (prevs (elems s)) (last_el D) (rev (a # y # b # zs))"
    and sz: "size_cache D = int (length (a # y # b # zs))"
    and ow: "owned (elems s) (Some d) (a # y # b # zs)"
    by (auto simp: llist_def split: option.splits)
  from path_hd[OF fw] have fi: "first_el D = Some a" by simp
  from path_hd[OF bw] have la: "last_el D = last_opt (b # zs)" by simp
  from L have "llist s ([] @ a # (y # b # zs))" by simp
  from llist_node[OF this] d obtain ea where
    ea: "elems s a = Some ea" "next_ptr ea = Some y" "prev_ptr ea = None"
      "data ea = Some d"
    by auto
  from L have "llist s ([a] @ y # (b # zs))" by simp
  from llist_node[OF this] d obtain ey where
    ey: "elems s y = Some ey" "next_ptr ey = Some b" "prev_ptr ey = Some a"
      "data ey = Some d"
    by auto
  from L have "llist s ((a # [y]) @ b # zs)" by simp
  from llist_node[OF this] d obtain eb where
    eb: "elems s b = Some eb" "next_ptr eb = hd_opt zs" "prev_ptr eb = Some y"
      "data eb = Some d"
    by auto
  from llist_distinct[OF L] have
    dis: "a \<noteq> y" "a \<noteq> b" "y \<noteq> b" "a \<notin> set zs" "y \<notin> set zs"
      "b \<notin> set zs" "distinct zs"
    by auto
  show ?thesis using dis d fi la sz ea ey eb fw bw ow
    apply (simp add: move_before_def prims llist_def)
    apply (auto simp: path_Cons path_append seg_append owned_Cons dest: hd_opt_mem last_opt_mem)
    done
qed

lemma move_before_fwd_3:
  assumes L: "llist s (a # y # ws @ z # b # zs)"
  shows "\<exists>s'. move_before s (Some a) (Some b) = Inr s' \<and> llist s' (y # ws @ z # a # b # zs) \<and>
           (\<forall>c. map_option val (elems s' c) = map_option val (elems s c))"
proof -
  from L obtain d D where d: "this_data s = Some d" "datas s d = Some D"
    and fw: "path (nexts (elems s)) (first_el D) (a # y # ws @ z # b # zs)"
    and bw: "path (prevs (elems s)) (last_el D) (rev (a # y # ws @ z # b # zs))"
    and sz: "size_cache D = int (length (a # y # ws @ z # b # zs))"
    and ow: "owned (elems s) (Some d) (a # y # ws @ z # b # zs)"
    by (auto simp: llist_def split: option.splits)
  from path_hd[OF fw] have fi: "first_el D = Some a" by simp
  from path_hd[OF bw] have la: "last_el D = last_opt (b # zs)" by simp
  from L have "llist s ([] @ a # (y # ws @ z # b # zs))" by simp
  from llist_node[OF this] d obtain ea where
    ea: "elems s a = Some ea" "next_ptr ea = Some y" "prev_ptr ea = None"
      "data ea = Some d"
    by auto
  from L have "llist s ([a] @ y # (ws @ z # b # zs))" by simp
  from llist_node[OF this] d obtain ey where
    ey: "elems s y = Some ey" "next_ptr ey = hd_opt (ws @ [z])" "prev_ptr ey = Some a"
      "data ey = Some d"
    by auto
  from L have "llist s ((a # y # ws) @ z # (b # zs))" by simp
  from llist_node[OF this] d obtain ez where
    ez: "elems s z = Some ez" "next_ptr ez = Some b" "prev_ptr ez = last_opt (y # ws)"
      "data ez = Some d"
    by auto
  from L have "llist s ((a # y # ws @ [z]) @ b # zs)" by simp
  from llist_node[OF this] d obtain eb where
    eb: "elems s b = Some eb" "next_ptr eb = hd_opt zs" "prev_ptr eb = Some z"
      "data eb = Some d"
    by auto
  from llist_distinct[OF L] have
    dis: "a \<noteq> y" "a \<noteq> z" "a \<noteq> b" "y \<noteq> z" "y \<noteq> b"
      "z \<noteq> b" "a \<notin> set ws" "a \<notin> set zs" "y \<notin> set ws"
      "y \<notin> set zs" "z \<notin> set ws" "z \<notin> set zs" "b \<notin> set ws"
      "b \<notin> set zs" "distinct ws" "distinct zs" "set ws \<inter> set zs = {}"
    by auto
  show ?thesis using dis d fi la sz ea ey ez eb fw bw ow
    apply (simp add: move_before_def prims llist_def)
    apply (auto simp: path_Cons path_append seg_append owned_Cons dest: hd_opt_mem last_opt_mem)
    done
qed

lemma move_before_fwd_4:
  assumes L: "llist s (xs' @ x # a # b # zs)"
  shows "\<exists>s'. move_before s (Some a) (Some b) = Inr s' \<and> llist s' (xs' @ x # a # b # zs) \<and>
           (\<forall>c. map_option val (elems s' c) = map_option val (elems s c))"
proof -
  from L obtain d D where d: "this_data s = Some d" "datas s d = Some D"
    and fw: "path (nexts (elems s)) (first_el D) (xs' @ x # a # b # zs)"
    and bw: "path (prevs (elems s)) (last_el D) (rev (xs' @ x # a # b # zs))"
    and sz: "size_cache D = int (length (xs' @ x # a # b # zs))"
    and ow: "owned (elems s) (Some d) (xs' @ x # a # b # zs)"
    by (auto simp: llist_def split: option.splits)
  from path_hd[OF fw] have fi: "first_el D = hd_opt (xs' @ [x])" by simp
  from path_hd[OF bw] have la: "last_el D = last_opt (b # zs)" by simp
  from L have "llist s (xs' @ x # (a # b # zs))" by simp
  from llist_node[OF this] d obtain ex where
    ex: "elems s x = Some ex" "next_ptr ex = Some a" "prev_ptr ex = last_opt xs'"
      "data ex = Some d"
    by auto
  from L have "llist s ((xs' @ [x]) @ a # (b # zs))" by simp
  from llist_node[OF this] d obtain ea where
    ea: "elems s a = Some ea" "next_ptr ea = Some b" "prev_ptr ea = Some x"
      "data ea = Some d"
    by auto
  from L have "llist s ((xs' @ x # [a]) @ b # zs)" by simp
  from llist_node[OF this] d obtain eb where
    eb: "elems s b = Some eb" "next_ptr eb = hd_opt zs" "prev_ptr eb = Some a"
      "data eb = Some d"
    by auto
  from llist_distinct[OF L] have
    dis: "x \<noteq> a" "x \<noteq> b" "a \<noteq> b" "x \<notin> set xs'" "x \<notin> set zs"
      "a \<notin> set xs'" "a \<notin> set zs" "b \<notin> set xs'" "b \<notin> set zs"
      "distinct xs'" "distinct zs" "set xs' \<inter> set zs = {}"
    by auto
  show ?thesis using dis d fi la sz ex ea eb fw bw ow
    apply (simp add: move_before_def prims llist_def)
    apply (auto simp: path_Cons path_append seg_append owned_Cons dest: hd_opt_mem last_opt_mem)
    done
qed

lemma move_before_fwd_5:
  assumes L: "llist s (xs' @ x # a # y # b # zs)"
  shows "\<exists>s'. move_before s (Some a) (Some b) = Inr s' \<and> llist s' (xs' @ x # y # a # b # zs) \<and>
           (\<forall>c. map_option val (elems s' c) = map_option val (elems s c))"
proof -
  from L obtain d D where d: "this_data s = Some d" "datas s d = Some D"
    and fw: "path (nexts (elems s)) (first_el D) (xs' @ x # a # y # b # zs)"
    and bw: "path (prevs (elems s)) (last_el D) (rev (xs' @ x # a # y # b # zs))"
    and sz: "size_cache D = int (length (xs' @ x # a # y # b # zs))"
    and ow: "owned (elems s) (Some d) (xs' @ x # a # y # b # zs)"
    by (auto simp: llist_def split: option.splits)
  from path_hd[OF fw] have fi: "first_el D = hd_opt (xs' @ [x])" by simp
  from path_hd[OF bw] have la: "last_el D = last_opt (b # zs)" by simp
  from L have "llist s (xs' @ x # (a # y # b # zs))" by simp
  from llist_node[OF this] d obtain ex where
    ex: "elems s x = Some ex" "next_ptr ex = Some a" "prev_ptr ex = last_opt xs'"
      "data ex = Some d"
    by auto
  from L have "llist s ((xs' @ [x]) @ a # (y # b # zs))" by simp
  from llist_node[OF this] d obtain ea where
    ea: "elems s a = Some ea" "next_ptr ea = Some y" "prev_ptr ea = Some x"
      "data ea = Some d"
    by auto
  from L have "llist s ((xs' @ x # [a]) @ y # (b # zs))" by simp
  from llist_node[OF this] d obtain ey where
    ey: "elems s y = Some ey" "next_ptr ey = Some b" "prev_ptr ey = Some a"
      "data ey = Some d"
    by auto
  from L have "llist s ((xs' @ x # a # [y]) @ b # zs)" by simp
  from llist_node[OF this] d obtain eb where
    eb: "elems s b = Some eb" "next_ptr eb = hd_opt zs" "prev_ptr eb = Some y"
      "data eb = Some d"
    by auto
  from llist_distinct[OF L] have
    dis: "x \<noteq> a" "x \<noteq> y" "x \<noteq> b" "a \<noteq> y" "a \<noteq> b"
      "y \<noteq> b" "x \<notin> set xs'" "x \<notin> set zs" "a \<notin> set xs'"
      "a \<notin> set zs" "y \<notin> set xs'" "y \<notin> set zs" "b \<notin> set xs'"
      "b \<notin> set zs" "distinct xs'" "distinct zs" "set xs' \<inter> set zs = {}"
    by auto
  show ?thesis using dis d fi la sz ex ea ey eb fw bw ow
    apply (simp add: move_before_def prims llist_def)
    apply (auto simp: path_Cons path_append seg_append owned_Cons dest: hd_opt_mem last_opt_mem)
    done
qed

lemma move_before_fwd_6:
  assumes L: "llist s (xs' @ x # a # y # ws @ z # b # zs)"
  shows "\<exists>s'. move_before s (Some a) (Some b) = Inr s' \<and> llist s' (xs' @ x # y # ws @ z # a # b # zs) \<and>
           (\<forall>c. map_option val (elems s' c) = map_option val (elems s c))"
proof -
  from L obtain d D where d: "this_data s = Some d" "datas s d = Some D"
    and fw: "path (nexts (elems s)) (first_el D) (xs' @ x # a # y # ws @ z # b # zs)"
    and bw: "path (prevs (elems s)) (last_el D) (rev (xs' @ x # a # y # ws @ z # b # zs))"
    and sz: "size_cache D = int (length (xs' @ x # a # y # ws @ z # b # zs))"
    and ow: "owned (elems s) (Some d) (xs' @ x # a # y # ws @ z # b # zs)"
    by (auto simp: llist_def split: option.splits)
  from path_hd[OF fw] have fi: "first_el D = hd_opt (xs' @ [x])" by simp
  from path_hd[OF bw] have la: "last_el D = last_opt (b # zs)" by simp
  from L have "llist s (xs' @ x # (a # y # ws @ z # b # zs))" by simp
  from llist_node[OF this] d obtain ex where
    ex: "elems s x = Some ex" "next_ptr ex = Some a" "prev_ptr ex = last_opt xs'"
      "data ex = Some d"
    by auto
  from L have "llist s ((xs' @ [x]) @ a # (y # ws @ z # b # zs))" by simp
  from llist_node[OF this] d obtain ea where
    ea: "elems s a = Some ea" "next_ptr ea = Some y" "prev_ptr ea = Some x"
      "data ea = Some d"
    by auto
  from L have "llist s ((xs' @ x # [a]) @ y # (ws @ z # b # zs))" by simp
  from llist_node[OF this] d obtain ey where
    ey: "elems s y = Some ey" "next_ptr ey = hd_opt (ws @ [z])" "prev_ptr ey = Some a"
      "data ey = Some d"
    by auto
  from L have "llist s ((xs' @ x # a # y # ws) @ z # (b # zs))" by simp
  from llist_node[OF this] d obtain ez where
    ez: "elems s z = Some ez" "next_ptr ez = Some b" "prev_ptr ez = last_opt (y # ws)"
      "data ez = Some d"
    by auto
  from L have "llist s ((xs' @ x # a # y # ws @ [z]) @ b # zs)" by simp
  from llist_node[OF this] d obtain eb where
    eb: "elems s b = Some eb" "next_ptr eb = hd_opt zs" "prev_ptr eb = Some z"
      "data eb = Some d"
    by auto
  from llist_distinct[OF L] have
    dis: "x \<noteq> a" "x \<noteq> y" "x \<noteq> z" "x \<noteq> b" "a \<noteq> y"
      "a \<noteq> z" "a \<noteq> b" "y \<noteq> z" "y \<noteq> b" "z \<noteq> b"
      "x \<notin> set xs'" "x \<notin> set ws" "x \<notin> set zs" "a \<notin> set xs'"
      "a \<notin> set ws" "a \<notin> set zs" "y \<notin> set xs'" "y \<notin> set ws"
      "y \<notin> set zs" "z \<notin> set xs'" "z \<notin> set ws" "z \<notin> set zs"
      "b \<notin> set xs'" "b \<notin> set ws" "b \<notin> set zs" "distinct xs'" "distinct ws"
      "distinct zs" "set xs' \<inter> set ws = {}" "set xs' \<inter> set zs = {}"
      "set ws \<inter> set zs = {}"
    by auto
  show ?thesis using dis d fi la sz ex ea ey ez eb fw bw ow
    apply (simp add: move_before_def prims llist_def)
    apply (auto simp: path_Cons path_append seg_append owned_Cons dest: hd_opt_mem last_opt_mem)
    done
qed

lemma move_before_fwd:
  assumes L: "llist s (xs @ a # ys @ b # zs)"
  shows "\<exists>s'. move_before s (Some a) (Some b) = Inr s' \<and> llist s' (xs @ ys @ a # b # zs) \<and>
           (\<forall>c. map_option val (elems s' c) = map_option val (elems s c))"
proof -
  have "(xs = [] \<and> ys = []) \<or>
        (\<exists>y. xs = [] \<and> ys = [y]) \<or>
        (\<exists>ws y z. xs = [] \<and> ys = y # ws @ [z]) \<or>
        (\<exists>x xs'. xs = xs' @ [x] \<and> ys = []) \<or>
        (\<exists>x xs' y. xs = xs' @ [x] \<and> ys = [y]) \<or>
        (\<exists>ws x xs' y z. xs = xs' @ [x] \<and> ys = y # ws @ [z])"
    by (cases xs rule: rev_cases; cases ys; cases "tl ys" rule: rev_cases; cases zs) auto
  then show ?thesis
    using L move_before_fwd_1 move_before_fwd_2 move_before_fwd_3 move_before_fwd_4 move_before_fwd_5 move_before_fwd_6
    by (elim disjE exE conjE) (simp_all del: llist_Nil)
qed

lemma move_before_bwd_1:
  assumes L: "llist s (b # [a])"
  shows "\<exists>s'. move_before s (Some a) (Some b) = Inr s' \<and> llist s' (a # [b]) \<and>
           (\<forall>c. map_option val (elems s' c) = map_option val (elems s c))"
proof -
  from L obtain d D where d: "this_data s = Some d" "datas s d = Some D"
    and fw: "path (nexts (elems s)) (first_el D) (b # [a])"
    and bw: "path (prevs (elems s)) (last_el D) (rev (b # [a]))"
    and sz: "size_cache D = int (length (b # [a]))"
    and ow: "owned (elems s) (Some d) (b # [a])"
    by (auto simp: llist_def split: option.splits)
  from path_hd[OF fw] have fi: "first_el D = Some b" by simp
  from path_hd[OF bw] have la: "last_el D = Some a" by simp
  from L have "llist s ([] @ b # [a])" by simp
  from llist_node[OF this] d obtain eb where
    eb: "elems s b = Some eb" "next_ptr eb = Some a" "prev_ptr eb = None"
      "data eb = Some d"
    by auto
  from L have "llist s ([b] @ a # [])" by simp
  from llist_node[OF this] d obtain ea where
    ea: "elems s a = Some ea" "next_ptr ea = None" "prev_ptr ea = Some b"
      "data ea = Some d"
    by auto
  from llist_distinct[OF L] have
    dis: "b \<noteq> a"
    by auto
  show ?thesis using dis d fi la sz eb ea fw bw ow
    apply (simp add: move_before_def prims llist_def)
    apply (auto simp: path_Cons path_append seg_append owned_Cons dest: hd_opt_mem last_opt_mem)
    done
qed

lemma move_before_bwd_2:
  assumes L: "llist s (b # a # w # zs')"
  shows "\<exists>s'. move_before s (Some a) (Some b) = Inr s' \<and> llist s' (a # b # w # zs') \<and>
           (\<forall>c. map_option val (elems s' c) = map_option val (elems s c))"
proof -
  from L obtain d D where d: "this_data s = Some d" "datas s d = Some D"
    and fw: "path (nexts (elems s)) (first_el D) (b # a # w # zs')"
    and bw: "path (prevs (elems s)) (last_el D) (rev (b # a # w # zs'))"
    and sz: "size_cache D = int (length (b # a # w # zs'))"
    and ow: "owned (elems s) (Some d) (b # a # w # zs')"
    by (auto simp: llist_def split: option.splits)
  from path_hd[OF fw] have fi: "first_el D = Some b" by simp
  from path_hd[OF bw] have la: "last_el D = last_opt (w # zs')" by simp
  from L have "llist s ([] @ b # (a # w # zs'))" by simp
  from llist_node[OF this] d obtain eb where
    eb: "elems s b = Some eb" "next_ptr eb = Some a" "prev_ptr eb = None"
      "data eb = Some d"
    by auto
  from L have "llist s ([b] @ a # (w # zs'))" by simp
  from llist_node[OF this] d obtain ea where
    ea: "elems s a = Some ea" "next_ptr ea = Some w" "prev_ptr ea = Some b"
      "data ea = Some d"
    by auto
  from L have "llist s ((b # [a]) @ w # zs')" by simp
  from llist_node[OF this] d obtain ew where
    ew: "elems s w = Some ew" "next_ptr ew = hd_opt zs'" "prev_ptr ew = Some a"
      "data ew = Some d"
    by auto
  from llist_distinct[OF L] have
    dis: "b \<noteq> a" "b \<noteq> w" "a \<noteq> w" "b \<notin> set zs'" "a \<notin> set zs'"
      "w \<notin> set zs'" "distinct zs'"
    by auto
  show ?thesis using dis d fi la sz eb ea ew fw bw ow
    apply (simp add: move_before_def prims llist_def)
    apply (auto simp: path_Cons path_append seg_append owned_Cons dest: hd_opt_mem last_opt_mem)
    done
qed

lemma move_before_bwd_3:
  assumes L: "llist s (b # ws @ z # [a])"
  shows "\<exists>s'. move_before s (Some a) (Some b) = Inr s' \<and> llist s' (a # b # ws @ [z]) \<and>
           (\<forall>c. map_option val (elems s' c) = map_option val (elems s c))"
proof -
  from L obtain d D where d: "this_data s = Some d" "datas s d = Some D"
    and fw: "path (nexts (elems s)) (first_el D) (b # ws @ z # [a])"
    and bw: "path (prevs (elems s)) (last_el D) (rev (b # ws @ z # [a]))"
    and sz: "size_cache D = int (length (b # ws @ z # [a]))"
    and ow: "owned (elems s) (Some d) (b # ws @ z # [a])"
    by (auto simp: llist_def split: option.splits)
  from path_hd[OF fw] have fi: "first_el D = Some b" by simp
  from path_hd[OF bw] have la: "last_el D = Some a" by simp
  from L have "llist s ([] @ b # (ws @ z # [a]))" by simp
  from llist_node[OF this] d obtain eb where
    eb: "elems s b = Some eb" "next_ptr eb = hd_opt (ws @ [z])" "prev_ptr eb = None"
      "data eb = Some d"
    by auto
  from L have "llist s ((b # ws) @ z # [a])" by simp
  from llist_node[OF this] d obtain ez where
    ez: "elems s z = Some ez" "next_ptr ez = Some a" "prev_ptr ez = last_opt (b # ws)"
      "data ez = Some d"
    by auto
  from L have "llist s ((b # ws @ [z]) @ a # [])" by simp
  from llist_node[OF this] d obtain ea where
    ea: "elems s a = Some ea" "next_ptr ea = None" "prev_ptr ea = Some z"
      "data ea = Some d"
    by auto
  from llist_distinct[OF L] have
    dis: "b \<noteq> z" "b \<noteq> a" "z \<noteq> a" "b \<notin> set ws" "z \<notin> set ws"
      "a \<notin> set ws" "distinct ws"
    by auto
  show ?thesis using dis d fi la sz eb ez ea fw bw ow
    apply (simp add: move_before_def prims llist_def)
    apply (auto simp: path_Cons path_append seg_append owned_Cons dest: hd_opt_mem last_opt_mem)
    done
qed

lemma move_before_bwd_4:
  assumes L: "llist s (b # ws @ z # a # w # zs')"
  shows "\<exists>s'. move_before s (Some a) (Some b) = Inr s' \<and> llist s' (a # b # ws @ z # w # zs') \<and>
           (\<forall>c. map_option val (elems s' c) = map_option val (elems s c))"
proof -
  from L obtain d D where d: "this_data s = Some d" "datas s d = Some D"
    and fw: "path (nexts (elems s)) (first_el D) (b # ws @ z # a # w # zs')"
    and bw: "path (prevs (elems s)) (last_el D) (rev (b # ws @ z # a # w # zs'))"
    and sz: "size_cache D = int (length (b # ws @ z # a # w # zs'))"
    and ow: "owned (elems s) (Some d) (b # ws @ z # a # w # zs')"
    by (auto simp: llist_def split: option.splits)
  from path_hd[OF fw] have fi: "first_el D = Some b" by simp
  from path_hd[OF bw] have la: "last_el D = last_opt (w # zs')" by simp
  from L have "llist s ([] @ b # (ws @ z # a # w # zs'))" by simp
  from llist_node[OF this] d obtain eb where
    eb: "elems s b = Some eb" "next_ptr eb = hd_opt (ws @ [z])" "prev_ptr eb = None"
      "data eb = Some d"
    by auto
  from L have "llist s ((b # ws) @ z # (a # w # zs'))" by simp
  from llist_node[OF this] d obtain ez where
    ez: "elems s z = Some ez" "next_ptr ez = Some a" "prev_ptr ez = last_opt (b # ws)"
      "data ez = Some d"
    by auto
  from L have "llist s ((b # ws @ [z]) @ a # (w # zs'))" by simp
  from llist_node[OF this] d obtain ea where
    ea: "elems s a = Some ea" "next_ptr ea = Some w" "prev_ptr ea = Some z"
      "data ea = Some d"
    by auto
  from L have "llist s ((b # ws @ z # [a]) @ w # zs')" by simp
  from llist_node[OF this] d obtain ew where
    ew: "elems s w = Some ew" "next_ptr ew = hd_opt zs'" "prev_ptr ew = Some a"
      "data ew = Some d"
    by auto
  from llist_distinct[OF L] have
    dis: "b \<noteq> z" "b \<noteq> a" "b \<noteq> w" "z \<noteq> a" "z \<noteq> w"
      "a \<noteq> w" "b \<notin> set ws" "b \<notin> set zs'" "z \<notin> set ws"
      "z \<notin> set zs'" "a \<notin> set ws" "a \<notin> set zs'" "w \<notin> set ws"
      "w \<notin> set zs'" "distinct ws" "distinct zs'" "set ws \<inter> set zs' = {}"
    by auto
  show ?thesis using dis d fi la sz eb ez ea ew fw bw ow
    apply (simp add: move_before_def prims llist_def)
    apply (auto simp: path_Cons path_append seg_append owned_Cons dest: hd_opt_mem last_opt_mem)
    done
qed

lemma move_before_bwd_5:
  assumes L: "llist s (xs' @ x # b # [a])"
  shows "\<exists>s'. move_before s (Some a) (Some b) = Inr s' \<and> llist s' (xs' @ x # a # [b]) \<and>
           (\<forall>c. map_option val (elems s' c) = map_option val (elems s c))"
proof -
  from L obtain d D where d: "this_data s = Some d" "datas s d = Some D"
    and fw: "path (nexts (elems s)) (first_el D) (xs' @ x # b # [a])"
    and bw: "path (prevs (elems s)) (last_el D) (rev (xs' @ x # b # [a]))"
    and sz: "size_cache D = int (length (xs' @ x # b # [a]))"
    and ow: "owned (elems s) (Some d) (xs' @ x # b # [a])"
    by (auto simp: llist_def split: option.splits)
  from path_hd[OF fw] have fi: "first_el D = hd_opt (xs' @ [x])" by simp
  from path_hd[OF bw] have la: "last_el D = Some a" by simp
  from L have "llist s (xs' @ x # (b # [a]))" by simp
  from llist_node[OF this] d obtain ex where
    ex: "elems s x = Some ex" "next_ptr ex = Some b" "prev_ptr ex = last_opt xs'"
      "data ex = Some d"
    by auto
  from L have "llist s ((xs' @ [x]) @ b # [a])" by simp
  from llist_node[OF this] d obtain eb where
    eb: "elems s b = Some eb" "next_ptr eb = Some a" "prev_ptr eb = Some x"
      "data eb = Some d"
    by auto
  from L have "llist s ((xs' @ x # [b]) @ a # [])" by simp
  from llist_node[OF this] d obtain ea where
    ea: "elems s a = Some ea" "next_ptr ea = None" "prev_ptr ea = Some b"
      "data ea = Some d"
    by auto
  from llist_distinct[OF L] have
    dis: "x \<noteq> b" "x \<noteq> a" "b \<noteq> a" "x \<notin> set xs'" "b \<notin> set xs'"
      "a \<notin> set xs'" "distinct xs'"
    by auto
  show ?thesis using dis d fi la sz ex eb ea fw bw ow
    apply (simp add: move_before_def prims llist_def)
    apply (auto simp: path_Cons path_append seg_append owned_Cons dest: hd_opt_mem last_opt_mem)
    done
qed

lemma move_before_bwd_6:
  assumes L: "llist s (xs' @ x # b # a # w # zs')"
  shows "\<exists>s'. move_before s (Some a) (Some b) = Inr s' \<and> llist s' (xs' @ x # a # b # w # zs') \<and>
           (\<forall>c. map_option val (elems s' c) = map_option val (elems s c))"
proof -
  from L obtain d D where d: "this_data s = Some d" "datas s d = Some D"
    and fw: "path (nexts (elems s)) (first_el D) (xs' @ x # b # a # w # zs')"
    and bw: "path (prevs (elems s)) (last_el D) (rev (xs' @ x # b # a # w # zs'))"
    and sz: "size_cache D = int (length (xs' @ x # b # a # w # zs'))"
    and ow: "owned (elems s) (Some d) (xs' @ x # b # a # w # zs')"
    by (auto simp: llist_def split: option.splits)
  from path_hd[OF fw] have fi: "first_el D = hd_opt (xs' @ [x])" by simp
  from path_hd[OF bw] have la: "last_el D = last_opt (w # zs')" by simp
  from L have "llist s (xs' @ x # (b # a # w # zs'))" by simp
  from llist_node[OF this] d obtain ex where
    ex: "elems s x = Some ex" "next_ptr ex = Some b" "prev_ptr ex = last_opt xs'"
      "data ex = Some d"
    by auto
  from L have "llist s ((xs' @ [x]) @ b # (a # w # zs'))" by simp
  from llist_node[OF this] d obtain eb where
    eb: "elems s b = Some eb" "next_ptr eb = Some a" "prev_ptr eb = Some x"
      "data eb = Some d"
    by auto
  from L have "llist s ((xs' @ x # [b]) @ a # (w # zs'))" by simp
  from llist_node[OF this] d obtain ea where
    ea: "elems s a = Some ea" "next_ptr ea = Some w" "prev_ptr ea = Some b"
      "data ea = Some d"
    by auto
  from L have "llist s ((xs' @ x # b # [a]) @ w # zs')" by simp
  from llist_node[OF this] d obtain ew where
    ew: "elems s w = Some ew" "next_ptr ew = hd_opt zs'" "prev_ptr ew = Some a"
      "data ew = Some d"
    by auto
  from llist_distinct[OF L] have
    dis: "x \<noteq> b" "x \<noteq> a" "x \<noteq> w" "b \<noteq> a" "b \<noteq> w"
      "a \<noteq> w" "x \<notin> set xs'" "x \<notin> set zs'" "b \<notin> set xs'"
      "b \<notin> set zs'" "a \<notin> set xs'" "a \<notin> set zs'" "w \<notin> set xs'"
      "w \<notin> set zs'" "distinct xs'" "distinct zs'" "set xs' \<inter> set zs' = {}"
    by auto
  show ?thesis using dis d fi la sz ex eb ea ew fw bw ow
    apply (simp add: move_before_def prims llist_def)
    apply (auto simp: path_Cons path_append seg_append owned_Cons dest: hd_opt_mem last_opt_mem)
    done
qed

lemma move_before_bwd_7:
  assumes L: "llist s (xs' @ x # b # ws @ z # [a])"
  shows "\<exists>s'. move_before s (Some a) (Some b) = Inr s' \<and> llist s' (xs' @ x # a # b # ws @ [z]) \<and>
           (\<forall>c. map_option val (elems s' c) = map_option val (elems s c))"
proof -
  from L obtain d D where d: "this_data s = Some d" "datas s d = Some D"
    and fw: "path (nexts (elems s)) (first_el D) (xs' @ x # b # ws @ z # [a])"
    and bw: "path (prevs (elems s)) (last_el D) (rev (xs' @ x # b # ws @ z # [a]))"
    and sz: "size_cache D = int (length (xs' @ x # b # ws @ z # [a]))"
    and ow: "owned (elems s) (Some d) (xs' @ x # b # ws @ z # [a])"
    by (auto simp: llist_def split: option.splits)
  from path_hd[OF fw] have fi: "first_el D = hd_opt (xs' @ [x])" by simp
  from path_hd[OF bw] have la: "last_el D = Some a" by simp
  from L have "llist s (xs' @ x # (b # ws @ z # [a]))" by simp
  from llist_node[OF this] d obtain ex where
    ex: "elems s x = Some ex" "next_ptr ex = Some b" "prev_ptr ex = last_opt xs'"
      "data ex = Some d"
    by auto
  from L have "llist s ((xs' @ [x]) @ b # (ws @ z # [a]))" by simp
  from llist_node[OF this] d obtain eb where
    eb: "elems s b = Some eb" "next_ptr eb = hd_opt (ws @ [z])" "prev_ptr eb = Some x"
      "data eb = Some d"
    by auto
  from L have "llist s ((xs' @ x # b # ws) @ z # [a])" by simp
  from llist_node[OF this] d obtain ez where
    ez: "elems s z = Some ez" "next_ptr ez = Some a" "prev_ptr ez = last_opt (b # ws)"
      "data ez = Some d"
    by auto
  from L have "llist s ((xs' @ x # b # ws @ [z]) @ a # [])" by simp
  from llist_node[OF this] d obtain ea where
    ea: "elems s a = Some ea" "next_ptr ea = None" "prev_ptr ea = Some z"
      "data ea = Some d"
    by auto
  from llist_distinct[OF L] have
    dis: "x \<noteq> b" "x \<noteq> z" "x \<noteq> a" "b \<noteq> z" "b \<noteq> a"
      "z \<noteq> a" "x \<notin> set xs'" "x \<notin> set ws" "b \<notin> set xs'"
      "b \<notin> set ws" "z \<notin> set xs'" "z \<notin> set ws" "a \<notin> set xs'"
      "a \<notin> set ws" "distinct xs'" "distinct ws" "set xs' \<inter> set ws = {}"
    by auto
  show ?thesis using dis d fi la sz ex eb ez ea fw bw ow
    apply (simp add: move_before_def prims llist_def)
    apply (auto simp: path_Cons path_append seg_append owned_Cons dest: hd_opt_mem last_opt_mem)
    done
qed

lemma move_before_bwd_8:
  assumes L: "llist s (xs' @ x # b # ws @ z # a # w # zs')"
  shows "\<exists>s'. move_before s (Some a) (Some b) = Inr s' \<and> llist s' (xs' @ x # a # b # ws @ z # w # zs') \<and>
           (\<forall>c. map_option val (elems s' c) = map_option val (elems s c))"
proof -
  from L obtain d D where d: "this_data s = Some d" "datas s d = Some D"
    and fw: "path (nexts (elems s)) (first_el D) (xs' @ x # b # ws @ z # a # w # zs')"
    and bw: "path (prevs (elems s)) (last_el D) (rev (xs' @ x # b # ws @ z # a # w # zs'))"
    and sz: "size_cache D = int (length (xs' @ x # b # ws @ z # a # w # zs'))"
    and ow: "owned (elems s) (Some d) (xs' @ x # b # ws @ z # a # w # zs')"
    by (auto simp: llist_def split: option.splits)
  from path_hd[OF fw] have fi: "first_el D = hd_opt (xs' @ [x])" by simp
  from path_hd[OF bw] have la: "last_el D = last_opt (w # zs')" by simp
  from L have "llist s (xs' @ x # (b # ws @ z # a # w # zs'))" by simp
  from llist_node[OF this] d obtain ex where
    ex: "elems s x = Some ex" "next_ptr ex = Some b" "prev_ptr ex = last_opt xs'"
      "data ex = Some d"
    by auto
  from L have "llist s ((xs' @ [x]) @ b # (ws @ z # a # w # zs'))" by simp
  from llist_node[OF this] d obtain eb where
    eb: "elems s b = Some eb" "next_ptr eb = hd_opt (ws @ [z])" "prev_ptr eb = Some x"
      "data eb = Some d"
    by auto
  from L have "llist s ((xs' @ x # b # ws) @ z # (a # w # zs'))" by simp
  from llist_node[OF this] d obtain ez where
    ez: "elems s z = Some ez" "next_ptr ez = Some a" "prev_ptr ez = last_opt (b # ws)"
      "data ez = Some d"
    by auto
  from L have "llist s ((xs' @ x # b # ws @ [z]) @ a # (w # zs'))" by simp
  from llist_node[OF this] d obtain ea where
    ea: "elems s a = Some ea" "next_ptr ea = Some w" "prev_ptr ea = Some z"
      "data ea = Some d"
    by auto
  from L have "llist s ((xs' @ x # b # ws @ z # [a]) @ w # zs')" by simp
  from llist_node[OF this] d obtain ew where
    ew: "elems s w = Some ew" "next_ptr ew = hd_opt zs'" "prev_ptr ew = Some a"
      "data ew = Some d"
    by auto
  from llist_distinct[OF L] have
    dis: "x \<noteq> b" "x \<noteq> z" "x \<noteq> a" "x \<noteq> w" "b \<noteq> z"
      "b \<noteq> a" "b \<noteq> w" "z \<noteq> a" "z \<noteq> w" "a \<noteq> w"
      "x \<notin> set xs'" "x \<notin> set ws" "x \<notin> set zs'" "b \<notin> set xs'"
      "b \<notin> set ws" "b \<notin> set zs'" "z \<notin> set xs'" "z \<notin> set ws"
      "z \<notin> set zs'" "a \<notin> set xs'" "a \<notin> set ws" "a \<notin> set zs'"
      "w \<notin> set xs'" "w \<notin> set ws" "w \<notin> set zs'" "distinct xs'"
      "distinct ws" "distinct zs'" "set xs' \<inter> set ws = {}"
      "set xs' \<inter> set zs' = {}" "set ws \<inter> set zs' = {}"
    by auto
  show ?thesis using dis d fi la sz ex eb ez ea ew fw bw ow
    apply (simp add: move_before_def prims llist_def)
    apply (auto simp: path_Cons path_append seg_append owned_Cons dest: hd_opt_mem last_opt_mem)
    done
qed

lemma move_before_bwd:
  assumes L: "llist s (xs @ b # ys @ a # zs)"
  shows "\<exists>s'. move_before s (Some a) (Some b) = Inr s' \<and> llist s' (xs @ a # b # ys @ zs) \<and>
           (\<forall>c. map_option val (elems s' c) = map_option val (elems s c))"
proof -
  have "(xs = [] \<and> ys = [] \<and> zs = []) \<or>
        (\<exists>w zs'. xs = [] \<and> ys = [] \<and> zs = w # zs') \<or>
        (\<exists>ws z. xs = [] \<and> ys = ws @ [z] \<and> zs = []) \<or>
        (\<exists>w ws z zs'. xs = [] \<and> ys = ws @ [z] \<and> zs = w # zs') \<or>
        (\<exists>x xs'. xs = xs' @ [x] \<and> ys = [] \<and> zs = []) \<or>
        (\<exists>w x xs' zs'. xs = xs' @ [x] \<and> ys = [] \<and> zs = w # zs') \<or>
        (\<exists>ws x xs' z. xs = xs' @ [x] \<and> ys = ws @ [z] \<and> zs = []) \<or>
        (\<exists>w ws x xs' z zs'. xs = xs' @ [x] \<and> ys = ws @ [z] \<and> zs = w # zs')"
    by (cases xs rule: rev_cases; cases ys; cases "tl ys" rule: rev_cases; cases zs) auto
  then show ?thesis
    using L move_before_bwd_1 move_before_bwd_2 move_before_bwd_3 move_before_bwd_4 move_before_bwd_5 move_before_bwd_6 move_before_bwd_7 move_before_bwd_8
    by (elim disjE exE conjE) (simp_all del: llist_Nil)
qed

lemma move_before_null_1:
  assumes L: "llist s ([a])"
  shows "\<exists>s'. move_before s (Some a) None = Inr s'"
proof -
  from L obtain d D where d: "this_data s = Some d" "datas s d = Some D"
    and fw: "path (nexts (elems s)) (first_el D) ([a])"
    and bw: "path (prevs (elems s)) (last_el D) (rev ([a]))"
    and sz: "size_cache D = int (length ([a]))"
    and ow: "owned (elems s) (Some d) ([a])"
    by (auto simp: llist_def split: option.splits)
  from path_hd[OF fw] have fi: "first_el D = Some a" by simp
  from path_hd[OF bw] have la: "last_el D = Some a" by simp
  from L have "llist s ([] @ a # [])" by simp
  from llist_node[OF this] d obtain ea where
    ea: "elems s a = Some ea" "next_ptr ea = None" "prev_ptr ea = None"
      "data ea = Some d"
    by auto
  show ?thesis using d fi la ea
    by (simp add: move_before_def prims)
qed

lemma move_before_self_1:
  assumes L: "llist s ([a])"
  shows "\<exists>s'. move_before s (Some a) (Some a) = Inr s'"
proof -
  from L obtain d D where d: "this_data s = Some d" "datas s d = Some D"
    and fw: "path (nexts (elems s)) (first_el D) ([a])"
    and bw: "path (prevs (elems s)) (last_el D) (rev ([a]))"
    and sz: "size_cache D = int (length ([a]))"
    and ow: "owned (elems s) (Some d) ([a])"
    by (auto simp: llist_def split: option.splits)
  from path_hd[OF fw] have fi: "first_el D = Some a" by simp
  from path_hd[OF bw] have la: "last_el D = Some a" by simp
  from L have "llist s ([] @ a # [])" by simp
  from llist_node[OF this] d obtain ea where
    ea: "elems s a = Some ea" "next_ptr ea = None" "prev_ptr ea = None"
      "data ea = Some d"
    by auto
  show ?thesis using d fi la ea
    by (simp add: move_before_def prims)
qed

lemma move_before_null_2:
  assumes L: "llist s (a # w # zs')"
  shows "\<exists>s'. move_before s (Some a) None = Inr s'"
proof -
  from L obtain d D where d: "this_data s = Some d" "datas s d = Some D"
    and fw: "path (nexts (elems s)) (first_el D) (a # w # zs')"
    and bw: "path (prevs (elems s)) (last_el D) (rev (a # w # zs'))"
    and sz: "size_cache D = int (length (a # w # zs'))"
    and ow: "owned (elems s) (Some d) (a # w # zs')"
    by (auto simp: llist_def split: option.splits)
  from path_hd[OF fw] have fi: "first_el D = Some a" by simp
  from path_hd[OF bw] have la: "last_el D = last_opt (w # zs')" by simp
  from L have "llist s ([] @ a # (w # zs'))" by simp
  from llist_node[OF this] d obtain ea where
    ea: "elems s a = Some ea" "next_ptr ea = Some w" "prev_ptr ea = None"
      "data ea = Some d"
    by auto
  from L have "llist s ([a] @ w # zs')" by simp
  from llist_node[OF this] d obtain ew where
    ew: "elems s w = Some ew" "next_ptr ew = hd_opt zs'" "prev_ptr ew = Some a"
      "data ew = Some d"
    by auto
  from llist_distinct[OF L] have
    dis: "a \<noteq> w" "a \<notin> set zs'" "w \<notin> set zs'" "distinct zs'"
    by auto
  show ?thesis using dis d fi la ea ew
    by (simp add: move_before_def prims)
qed

lemma move_before_self_2:
  assumes L: "llist s (a # w # zs')"
  shows "\<exists>s'. move_before s (Some a) (Some a) = Inr s'"
proof -
  from L obtain d D where d: "this_data s = Some d" "datas s d = Some D"
    and fw: "path (nexts (elems s)) (first_el D) (a # w # zs')"
    and bw: "path (prevs (elems s)) (last_el D) (rev (a # w # zs'))"
    and sz: "size_cache D = int (length (a # w # zs'))"
    and ow: "owned (elems s) (Some d) (a # w # zs')"
    by (auto simp: llist_def split: option.splits)
  from path_hd[OF fw] have fi: "first_el D = Some a" by simp
  from path_hd[OF bw] have la: "last_el D = last_opt (w # zs')" by simp
  from L have "llist s ([] @ a # (w # zs'))" by simp
  from llist_node[OF this] d obtain ea where
    ea: "elems s a = Some ea" "next_ptr ea = Some w" "prev_ptr ea = None"
      "data ea = Some d"
    by auto
  from L have "llist s ([a] @ w # zs')" by simp
  from llist_node[OF this] d obtain ew where
    ew: "elems s w = Some ew" "next_ptr ew = hd_opt zs'" "prev_ptr ew = Some a"
      "data ew = Some d"
    by auto
  from llist_distinct[OF L] have
    dis: "a \<noteq> w" "a \<notin> set zs'" "w \<notin> set zs'" "distinct zs'"
    by auto
  show ?thesis using dis d fi la ea ew
    by (simp add: move_before_def prims)
qed

lemma move_before_null_3:
  assumes L: "llist s (xs' @ x # [a])"
  shows "\<exists>s'. move_before s (Some a) None = Inr s'"
proof -
  from L obtain d D where d: "this_data s = Some d" "datas s d = Some D"
    and fw: "path (nexts (elems s)) (first_el D) (xs' @ x # [a])"
    and bw: "path (prevs (elems s)) (last_el D) (rev (xs' @ x # [a]))"
    and sz: "size_cache D = int (length (xs' @ x # [a]))"
    and ow: "owned (elems s) (Some d) (xs' @ x # [a])"
    by (auto simp: llist_def split: option.splits)
  from path_hd[OF fw] have fi: "first_el D = hd_opt (xs' @ [x])" by simp
  from path_hd[OF bw] have la: "last_el D = Some a" by simp
  from L have "llist s (xs' @ x # [a])" by simp
  from llist_node[OF this] d obtain ex where
    ex: "elems s x = Some ex" "next_ptr ex = Some a" "prev_ptr ex = last_opt xs'"
      "data ex = Some d"
    by auto
  from L have "llist s ((xs' @ [x]) @ a # [])" by simp
  from llist_node[OF this] d obtain ea where
    ea: "elems s a = Some ea" "next_ptr ea = None" "prev_ptr ea = Some x"
      "data ea = Some d"
    by auto
  from llist_distinct[OF L] have
    dis: "x \<noteq> a" "x \<notin> set xs'" "a \<notin> set xs'" "distinct xs'"
    by auto
  show ?thesis using dis d fi la ex ea
    by (simp add: move_before_def prims)
qed

lemma move_before_self_3:
  assumes L: "llist s (xs' @ x # [a])"
  shows "\<exists>s'. move_before s (Some a) (Some a) = Inr s'"
proof -
  from L obtain d D where d: "this_data s = Some d" "datas s d = Some D"
    and fw: "path (nexts (elems s)) (first_el D) (xs' @ x # [a])"
    and bw: "path (prevs (elems s)) (last_el D) (rev (xs' @ x # [a]))"
    and sz: "size_cache D = int (length (xs' @ x # [a]))"
    and ow: "owned (elems s) (Some d) (xs' @ x # [a])"
    by (auto simp: llist_def split: option.splits)
  from path_hd[OF fw] have fi: "first_el D = hd_opt (xs' @ [x])" by simp
  from path_hd[OF bw] have la: "last_el D = Some a" by simp
  from L have "llist s (xs' @ x # [a])" by simp
  from llist_node[OF this] d obtain ex where
    ex: "elems s x = Some ex" "next_ptr ex = Some a" "prev_ptr ex = last_opt xs'"
      "data ex = Some d"
    by auto
  from L have "llist s ((xs' @ [x]) @ a # [])" by simp
  from llist_node[OF this] d obtain ea where
    ea: "elems s a = Some ea" "next_ptr ea = None" "prev_ptr ea = Some x"
      "data ea = Some d"
    by auto
  from llist_distinct[OF L] have
    dis: "x \<noteq> a" "x \<notin> set xs'" "a \<notin> set xs'" "distinct xs'"
    by auto
  show ?thesis using dis d fi la ex ea
    by (simp add: move_before_def prims)
qed

lemma move_before_null_4:
  assumes L: "llist s (xs' @ x # a # w # zs')"
  shows "\<exists>s'. move_before s (Some a) None = Inr s'"
proof -
  from L obtain d D where d: "this_data s = Some d" "datas s d = Some D"
    and fw: "path (nexts (elems s)) (first_el D) (xs' @ x # a # w # zs')"
    and bw: "path (prevs (elems s)) (last_el D) (rev (xs' @ x # a # w # zs'))"
    and sz: "size_cache D = int (length (xs' @ x # a # w # zs'))"
    and ow: "owned (elems s) (Some d) (xs' @ x # a # w # zs')"
    by (auto simp: llist_def split: option.splits)
  from path_hd[OF fw] have fi: "first_el D = hd_opt (xs' @ [x])" by simp
  from path_hd[OF bw] have la: "last_el D = last_opt (w # zs')" by simp
  from L have "llist s (xs' @ x # (a # w # zs'))" by simp
  from llist_node[OF this] d obtain ex where
    ex: "elems s x = Some ex" "next_ptr ex = Some a" "prev_ptr ex = last_opt xs'"
      "data ex = Some d"
    by auto
  from L have "llist s ((xs' @ [x]) @ a # (w # zs'))" by simp
  from llist_node[OF this] d obtain ea where
    ea: "elems s a = Some ea" "next_ptr ea = Some w" "prev_ptr ea = Some x"
      "data ea = Some d"
    by auto
  from L have "llist s ((xs' @ x # [a]) @ w # zs')" by simp
  from llist_node[OF this] d obtain ew where
    ew: "elems s w = Some ew" "next_ptr ew = hd_opt zs'" "prev_ptr ew = Some a"
      "data ew = Some d"
    by auto
  from llist_distinct[OF L] have
    dis: "x \<noteq> a" "x \<noteq> w" "a \<noteq> w" "x \<notin> set xs'" "x \<notin> set zs'"
      "a \<notin> set xs'" "a \<notin> set zs'" "w \<notin> set xs'" "w \<notin> set zs'"
      "distinct xs'" "distinct zs'" "set xs' \<inter> set zs' = {}"
    by auto
  show ?thesis using dis d fi la ex ea ew
    by (simp add: move_before_def prims)
qed

lemma move_before_self_4:
  assumes L: "llist s (xs' @ x # a # w # zs')"
  shows "\<exists>s'. move_before s (Some a) (Some a) = Inr s'"
proof -
  from L obtain d D where d: "this_data s = Some d" "datas s d = Some D"
    and fw: "path (nexts (elems s)) (first_el D) (xs' @ x # a # w # zs')"
    and bw: "path (prevs (elems s)) (last_el D) (rev (xs' @ x # a # w # zs'))"
    and sz: "size_cache D = int (length (xs' @ x # a # w # zs'))"
    and ow: "owned (elems s) (Some d) (xs' @ x # a # w # zs')"
    by (auto simp: llist_def split: option.splits)
  from path_hd[OF fw] have fi: "first_el D = hd_opt (xs' @ [x])" by simp
  from path_hd[OF bw] have la: "last_el D = last_opt (w # zs')" by simp
  from L have "llist s (xs' @ x # (a # w # zs'))" by simp
  from llist_node[OF this] d obtain ex where
    ex: "elems s x = Some ex" "next_ptr ex = Some a" "prev_ptr ex = last_opt xs'"
      "data ex = Some d"
    by auto
  from L have "llist s ((xs' @ [x]) @ a # (w # zs'))" by simp
  from llist_node[OF this] d obtain ea where
    ea: "elems s a = Some ea" "next_ptr ea = Some w" "prev_ptr ea = Some x"
      "data ea = Some d"
    by auto
  from L have "llist s ((xs' @ x # [a]) @ w # zs')" by simp
  from llist_node[OF this] d obtain ew where
    ew: "elems s w = Some ew" "next_ptr ew = hd_opt zs'" "prev_ptr ew = Some a"
      "data ew = Some d"
    by auto
  from llist_distinct[OF L] have
    dis: "x \<noteq> a" "x \<noteq> w" "a \<noteq> w" "x \<notin> set xs'" "x \<notin> set zs'"
      "a \<notin> set xs'" "a \<notin> set zs'" "w \<notin> set xs'" "w \<notin> set zs'"
      "distinct xs'" "distinct zs'" "set xs' \<inter> set zs' = {}"
    by auto
  show ?thesis using dis d fi la ex ea ew
    by (simp add: move_before_def prims)
qed

lemma move_before_null_returns:
  assumes L: "llist s (xs @ a # zs)"
  shows "\<exists>s'. move_before s (Some a) None = Inr s'"
proof -
  have "(xs = [] \<and> zs = []) \<or> (\<exists>w zs'. xs = [] \<and> zs = w # zs') \<or>
        (\<exists>x xs'. xs = xs' @ [x] \<and> zs = []) \<or>
        (\<exists>x xs' w zs'. xs = xs' @ [x] \<and> zs = w # zs')"
    by (cases xs rule: rev_cases; cases zs) auto
  then show ?thesis
    using L move_before_null_1 move_before_null_2 move_before_null_3 move_before_null_4
    by (elim disjE exE conjE) (simp_all del: llist_Nil)
qed

lemma move_before_self_returns:
  assumes L: "llist s (xs @ a # zs)"
  shows "\<exists>s'. move_before s (Some a) (Some a) = Inr s'"
proof -
  have "(xs = [] \<and> zs = []) \<or> (\<exists>w zs'. xs = [] \<and> zs = w # zs') \<or>
        (\<exists>x xs'. xs = xs' @ [x] \<and> zs = []) \<or>
        (\<exists>x xs' w zs'. xs = xs' @ [x] \<and> zs = w # zs')"
    by (cases xs rule: rev_cases; cases zs) auto
  then show ?thesis
    using L move_before_self_1 move_before_self_2 move_before_self_3 move_before_self_4
    by (elim disjE exE conjE) (simp_all del: llist_Nil)
qed

lemma two_nodes_order:
  assumes "a \<in> set as" "b \<in> set as" "a \<noteq> b"
  shows "(\<exists>xs ys zs. as = xs @ a # ys @ b # zs) \<or> (\<exists>xs ys zs. as = xs @ b # ys @ a # zs)"
proof -
  from assms(1) obtain us vs where as: "as = us @ a # vs" by (auto simp: in_set_conv_decomp)
  with assms(2,3) have "b \<in> set us \<or> b \<in> set vs" by auto
  then show ?thesis
  proof
    assume "b \<in> set us"
    then obtain xs ys where "us = xs @ b # ys" by (auto simp: in_set_conv_decomp)
    with as have "as = xs @ b # ys @ a # vs" by simp
    then show ?thesis by blast
  next
    assume "b \<in> set vs"
    then obtain ys zs where "vs = ys @ b # zs" by (auto simp: in_set_conv_decomp)
    with as have "as = us @ a # ys @ b # zs" by simp
    then show ?thesis by blast
  qed
qed

lemma insert_before_split: "b \<notin> set xs \<Longrightarrow> insert_before a b (xs @ b # zs) = xs @ a # b # zs"
  by (induction xs) auto

lemma move_before_llist:
  assumes L: "llist s as" and a: "a \<in> set as" and b: "b \<in> set as" and ab: "a \<noteq> b"
  shows "\<exists>s'. move_before s (Some a) (Some b) = Inr s' \<and>
           llist s' (insert_before a b (remove1 a as)) \<and>
           (\<forall>c. map_option val (elems s' c) = map_option val (elems s c))"
proof -
  from llist_distinct[OF L] have dis: "distinct as" .
  from two_nodes_order[OF a b ab] show ?thesis
  proof (elim disjE exE)
    fix xs ys zs assume as: "as = xs @ a # ys @ b # zs"
    with dis have "remove1 a as = xs @ ys @ b # zs" by (simp add: remove1_append)
    moreover from as dis have "insert_before a b ((xs @ ys) @ b # zs) = (xs @ ys) @ a # b # zs"
      by (intro insert_before_split) auto
    ultimately have "insert_before a b (remove1 a as) = xs @ ys @ a # b # zs" by simp
    with move_before_fwd[of s xs a ys b zs] L as show ?thesis by simp
  next
    fix xs ys zs assume as: "as = xs @ b # ys @ a # zs"
    with dis have "remove1 a as = xs @ b # ys @ zs" by (simp add: remove1_append)
    moreover from as dis have "insert_before a b (xs @ b # ys @ zs) = xs @ a # b # ys @ zs"
      by (intro insert_before_split) auto
    ultimately have "insert_before a b (remove1 a as) = xs @ a # b # ys @ zs" by simp
    with move_before_bwd[of s xs b ys a zs] L as show ?thesis by simp
  qed
qed

lemma move_before_returns:
  assumes L: "llist s as" and a: "a \<in> set as" and b: "p_B = None \<or> p_B \<in> Some ` set as"
  shows "\<exists>s'. move_before s (Some a) p_B = Inr s'"
proof -
  from a obtain xs zs where as: "as = xs @ a # zs" by (auto simp: in_set_conv_decomp)
  show ?thesis
  proof (cases p_B)
    case None
    with move_before_null_returns[of s xs a zs] L as show ?thesis by simp
  next
    case (Some b)
    show ?thesis
    proof (cases "b = a")
      case True
      with Some move_before_self_returns[of s xs a zs] L as show ?thesis by simp
    next
      case False
      with Some b have "b \<in> set as" "a \<noteq> b" by auto
      from move_before_llist[OF L a this] Some show ?thesis by blast
    qed
  qed
qed

subsection \<open>Invalid handles, searching, sequences of pushes\<close>

lemma llist_size_cache:
  "llist s as \<Longrightarrow> this_data s = Some d \<Longrightarrow> \<exists>D. datas s d = Some D \<and> size_cache D = int (length as) \<and> as \<noteq> []"
  by (auto simp: llist_def split: option.splits)

lemma remove_null: "llist s as \<Longrightarrow> remove s None = Inr (False, s)"
  by (cases "this_data s") (auto simp: remove_def ListData_erase_def prims dest: llist_size_cache)

lemma ListData_erase_mismatch:
  "elems s a = Some e \<Longrightarrow> data e \<noteq> this_p \<Longrightarrow> ListData_erase s this_p (Some a) = Inr (False, s)"
  by (simp add: ListData_erase_def prims)

lemma remove_mismatch:
  "llist s as \<Longrightarrow> elems s a = Some e \<Longrightarrow> data e \<noteq> this_data s \<Longrightarrow>
     remove s (Some a) = Inr (False, s)"
  by (cases "this_data s") (auto simp: remove_def ListData_erase_mismatch prims dest: llist_size_cache)

lemma move_to_back_mismatch:
  "elems s a = Some e \<Longrightarrow> data e \<noteq> this_data s \<Longrightarrow> move_to_back s (Some a) = Inr s"
  by (simp add: move_to_back_def prims)

lemma move_to_front_mismatch:
  "elems s a = Some e \<Longrightarrow> data e \<noteq> this_data s \<Longrightarrow> move_to_front s (Some a) = Inr s"
  by (simp add: move_to_front_def prims)

lemma find_l_llist:
  assumes "llist s as"
  shows "find_l s v = Some (Inr (List.find (\<lambda>a. map_option val (elems s a) = Some v) as))"
proof (cases as)
  case Nil
  with assms show ?thesis by (simp add: find_l_def front_l_def find_loop.simps)
next
  case (Cons a as')
  with llist_parts[OF assms] obtain d D where
    d: "this_data s = Some d" "datas s d = Some D" and
    fw: "path (nexts (elems s)) (first_el D) as" by auto
  from find_loop_path[OF fw, of v] d show ?thesis
    by (simp add: find_l_def front_l_def prims)
qed

lemma find_first:
  "\<not> P a \<Longrightarrow> List.find P (a # as) = List.find P as"
  by simp

lemma find_split:
  "(\<forall>x \<in> set xs. \<not> P x) \<Longrightarrow> List.find P (xs @ ys) = List.find P ys"
  by (induction xs) auto

lemma find_absent: "(\<forall>x \<in> set xs. \<not> P x) \<Longrightarrow> List.find P xs = None"
  by (induction xs) auto

lemma contents_unchanged:
  "(\<And>a. a \<in> set as \<Longrightarrow> map_option val (elems s' a) = map_option val (elems s a)) \<Longrightarrow>
     contents s' as = contents s as"
  by (simp add: contents_def)

lemma push_back_all_llist:
  assumes "llist s as" "distinct (map fst nvs)" "fst ` set nvs \<inter> dom (elems s) = {}"
  shows "\<exists>s'. push_back_all s d_new nvs = Inr s' \<and> llist s' (as @ map fst nvs) \<and>
           contents s' (as @ map fst nvs) = contents s as @ map (Some \<circ> snd) nvs"
  using assms
proof (induction nvs arbitrary: s as)
  case Nil
  then show ?case by simp
next
  case (Cons nv nvs)
  obtain n v where nv: "nv = (n, v)" by (cases nv)
  from Cons.prems nv have fresh: "n \<notin> dom (elems s)" by auto
  from push_back_llist[OF Cons.prems(1) fresh, of d_new v] obtain s1 where
    p: "push_back s d_new n v = Inr (Some n, s1)" and L1: "llist s1 (as @ [n])" and
    vn: "map_option val (elems s1 n) = Some v" and
    vo: "\<forall>a. a \<noteq> n \<longrightarrow> map_option val (elems s1 a) = map_option val (elems s a)" and
    dm: "dom (elems s1) = insert n (dom (elems s))"
    by blast
  from Cons.prems nv dm have d2: "distinct (map fst nvs)" and f2: "fst ` set nvs \<inter> dom (elems s1) = {}"
    by (auto simp: rev_image_eqI)
  from Cons.IH[OF L1 d2 f2] obtain s' where
    pa: "push_back_all s1 d_new nvs = Inr s'" and L': "llist s' ((as @ [n]) @ map fst nvs)" and
    c: "contents s' ((as @ [n]) @ map fst nvs) = contents s1 (as @ [n]) @ map (Some \<circ> snd) nvs"
    by blast
  from llist_allocated[OF Cons.prems(1)] fresh have "n \<notin> set as" by auto
  with vo have "contents s1 as = contents s as" by (intro contents_unchanged) auto
  with vn have "contents s1 (as @ [n]) = contents s as @ [Some v]"
    by (simp add: contents_def)
  with p pa L' c nv show ?case by simp
qed

lemma traversals_llist:
  assumes "llist s as" "contents s as = map Some vs"
  shows "front_to_back s = Some (Inr vs)" "back_to_front s = Some (Inr (rev vs))"
proof -
  show "front_to_back s = Some (Inr vs)"
  proof (cases as)
    case Nil
    with assms show ?thesis by (simp add: front_to_back_def front_l_def contents_def walk.simps)
  next
    case (Cons a as')
    with llist_parts[OF assms(1)] obtain d D where
      d: "this_data s = Some d" "datas s d = Some D" and
      fw: "path (nexts (elems s)) (first_el D) as" by auto
    from fw have "path (\<lambda>a. map_option next_ptr (elems s a)) (first_el D) as"
      by (simp add: nexts_def)
    from walk_path[OF this, of vs "[]"] assms(2) d show ?thesis
      by (simp add: front_to_back_def front_l_def prims contents_def)
  qed
  show "back_to_front s = Some (Inr (rev vs))"
  proof (cases as)
    case Nil
    with assms show ?thesis by (simp add: back_to_front_def back_l_def contents_def walk.simps)
  next
    case (Cons a as')
    with llist_parts[OF assms(1)] obtain d D where
      d: "this_data s = Some d" "datas s d = Some D" and
      bw: "path (prevs (elems s)) (last_el D) (rev as)" by auto
    from bw have p: "path (\<lambda>a. map_option prev_ptr (elems s a)) (last_el D) (rev as)"
      by (simp add: prevs_def)
    from assms(2) have "map (\<lambda>a. map_option val (elems s a)) (rev as) = map Some (rev vs)"
      by (simp add: contents_def rev_map[symmetric])
    from walk_path[OF p this, of "[]"] d show ?thesis
      by (simp add: back_to_front_def back_l_def prims)
  qed
qed

lemma llist_two_lists: "llist two_lists [1, 2, 3]"
  by (simp add: two_lists_def llist_def path_Cons owned_Cons)

lemma mset_contents_perm: "mset as' = mset as \<Longrightarrow>
   (\<And>a. map_option val (elems s' a) = map_option val (elems s a)) \<Longrightarrow>
   mset (contents s' as') = mset (contents s as)"
  by (simp add: contents_def)

lemma llist_hd_first: "llist s as \<Longrightarrow> as \<noteq> [] \<Longrightarrow> move_to_front s (Some (hd as)) = Inr s"
proof -
  assume L: "llist s as" and ne: "as \<noteq> []"
  then obtain a ys where as: "as = [] @ a # ys" by (cases as) auto
  from move_to_front_llist[of s "[]" a ys] L as show ?thesis by auto
qed

lemma llist_last_back: "llist s as \<Longrightarrow> as \<noteq> [] \<Longrightarrow> move_to_back s (Some (last as)) = Inr s"
proof -
  assume L: "llist s as" and ne: "as \<noteq> []"
  then obtain a xs where as: "as = xs @ a # []" by (cases as rule: rev_cases) auto
  from move_to_back_llist[of s xs a "[]"] L as show ?thesis by auto
qed

subsection \<open>The example states\<close>

text \<open>
  The example states are states the code produces: \<open>abc_list\<close> by three calls of
  \<open>push_back\<close> on a fresh list, \<open>two_lists\<close> when a second list object pushes 70 into
  node 7.
\<close>

lemma abc_list_pushed:
  "push_back_all empty_list 0 [(1, 10), (2, 20), (3, 30)] = Inr abc_list"
  by (simp add: empty_list_def abc_list_def push_back_def alloc_data_def prims fun_upd_twist)

lemma two_lists_pushed:
  "push_back (abc_list\<lparr>this_data := None\<rparr>) 9 7 70 = Inr (Some 7, two_lists\<lparr>this_data := Some 9\<rparr>)"
  by (simp add: abc_list_def two_lists_def push_back_def alloc_data_def prims fun_upd_twist)

subsection \<open>The storage invariants\<close>

text \<open>
  A state that represents a list satisfies the storage invariants of the spec: head,
  tail and count are null or zero together, a node's successor has the node as its
  predecessor and the other way round, and the count is the number of nodes on the
  traversal from the head and on the traversal from the tail.
\<close>

lemma llist_invariants:
  assumes L: "llist s as" and d: "this_data s = Some d" "datas s d = Some D"
  shows "(first_el D = None \<longleftrightarrow> last_el D = None) \<and> (last_el D = None \<longleftrightarrow> size_cache D = 0)"
    and "\<forall>n \<in> set as. \<forall>en m. elems s n = Some en \<and> next_ptr en = Some m \<longrightarrow>
           map_option prev_ptr (elems s m) = Some (Some n)"
    and "\<forall>n \<in> set as. \<forall>en m. elems s n = Some en \<and> prev_ptr en = Some m \<longrightarrow>
           map_option next_ptr (elems s m) = Some (Some n)"
    and "path (nexts (elems s)) (first_el D) as \<and> path (prevs (elems s)) (last_el D) (rev as) \<and>
         size_cache D = int (length as)"
proof -
  from L d have ne: "as \<noteq> []" and
    fw: "path (nexts (elems s)) (first_el D) as" and
    bw: "path (prevs (elems s)) (last_el D) (rev as)" and
    sz: "size_cache D = int (length as)"
    by (auto simp: llist_def)
  from fw bw sz show "path (nexts (elems s)) (first_el D) as \<and>
      path (prevs (elems s)) (last_el D) (rev as) \<and> size_cache D = int (length as)" by simp
  from path_hd[OF fw] ne have "first_el D \<noteq> None" by (cases as) auto
  moreover from path_hd[OF bw] ne have "last_el D \<noteq> None" by (simp add: last_opt_def)
  ultimately
  show "(first_el D = None \<longleftrightarrow> last_el D = None) \<and> (last_el D = None \<longleftrightarrow> size_cache D = 0)"
    using ne sz by auto
  show "\<forall>n \<in> set as. \<forall>en m. elems s n = Some en \<and> next_ptr en = Some m \<longrightarrow>
           map_option prev_ptr (elems s m) = Some (Some n)"
  proof (intro ballI allI impI)
    fix n en m assume n: "n \<in> set as" and e: "elems s n = Some en \<and> next_ptr en = Some m"
    from n obtain xs ys where as: "as = xs @ n # ys" by (auto simp: in_set_conv_decomp)
    from llist_node[of s xs n ys] L as e have "hd_opt ys = Some m" by auto
    then obtain ys' where ys: "ys = m # ys'" by (cases ys) auto
    from L as ys have "llist s ((xs @ [n]) @ m # ys')" by simp
    from llist_node[OF this] show "map_option prev_ptr (elems s m) = Some (Some n)" by auto
  qed
  show "\<forall>n \<in> set as. \<forall>en m. elems s n = Some en \<and> prev_ptr en = Some m \<longrightarrow>
           map_option next_ptr (elems s m) = Some (Some n)"
  proof (intro ballI allI impI)
    fix n en m assume n: "n \<in> set as" and e: "elems s n = Some en \<and> prev_ptr en = Some m"
    from n obtain xs ys where as: "as = xs @ n # ys" by (auto simp: in_set_conv_decomp)
    from llist_node[of s xs n ys] L as e have "last_opt xs = Some m" by auto
    then obtain xs' where xs: "xs = xs' @ [m]" by (cases xs rule: rev_cases) auto
    from L as xs have "llist s (xs' @ m # (n # ys))" by simp
    from llist_node[OF this] show "map_option next_ptr (elems s m) = Some (Some n)" by auto
  qed
qed

text \<open>
  Every public operation other than \<open>move_before\<close> with a null second handle takes a
  state that represents a list to a state that represents a list.
\<close>

lemma operations_keep_llist:
  assumes L: "llist s as"
  shows "n \<notin> dom (elems s) \<Longrightarrow> \<exists>s'. push_back s d_new n v = Inr (Some n, s') \<and> llist s' (as @ [n])"
    and "n \<notin> dom (elems s) \<Longrightarrow> \<exists>s'. push_front s d_new n v = Inr (Some n, s') \<and> llist s' (n # as)"
    and "\<exists>s'. pop_back s = Inr s' \<and> llist s' (butlast as)"
    and "\<exists>s'. pop_front s = Inr s' \<and> llist s' (tl as)"
    and "a \<in> set as \<Longrightarrow> \<exists>s'. remove s (Some a) = Inr (True, s') \<and> llist s' (remove1 a as)"
    and "\<exists>r s' as'. erase s v = Some (Inr (r, s')) \<and> llist s' as'"
    and "a \<in> set as \<Longrightarrow> \<exists>s'. move_to_front s (Some a) = Inr s' \<and> llist s' (a # remove1 a as)"
    and "a \<in> set as \<Longrightarrow> \<exists>s'. move_to_back s (Some a) = Inr s' \<and> llist s' (remove1 a as @ [a])"
    and "a \<in> set as \<Longrightarrow> b \<in> set as \<Longrightarrow> a \<noteq> b \<Longrightarrow>
           \<exists>s'. move_before s (Some a) (Some b) = Inr s' \<and>
             llist s' (insert_before a b (remove1 a as))"
    and "\<exists>s'. clear s = Some (Inr s') \<and> llist s' []"
proof -
  have rm: "\<exists>s'. remove s (Some a) = Inr (True, s') \<and> llist s' (remove1 a as)"
    if "a \<in> set as" for a
  proof -
    from that obtain xs ys where as: "as = xs @ a # ys" by (auto simp: in_set_conv_decomp)
    with llist_distinct[OF L] have "remove1 a as = xs @ ys" by (simp add: remove1_append)
    with remove_llist[of s xs a ys] L as show ?thesis by auto
  qed
  show "n \<notin> dom (elems s) \<Longrightarrow> \<exists>s'. push_back s d_new n v = Inr (Some n, s') \<and> llist s' (as @ [n])"
    using push_back_llist[OF L, of n d_new v] by blast
  show "n \<notin> dom (elems s) \<Longrightarrow> \<exists>s'. push_front s d_new n v = Inr (Some n, s') \<and> llist s' (n # as)"
    using push_front_llist[OF L, of n d_new v] by blast
  show "\<exists>s'. pop_back s = Inr s' \<and> llist s' (butlast as)"
  proof (cases as rule: rev_cases)
    case Nil
    with L show ?thesis by (simp add: pop_back_def)
  next
    case (snoc xs x)
    with pop_back_llist[of s xs x] rm[of x] L llist_distinct[OF L] show ?thesis
      by (auto simp: remove1_append)
  qed
  show "\<exists>s'. pop_front s = Inr s' \<and> llist s' (tl as)"
  proof (cases as)
    case Nil
    with L show ?thesis by (simp add: pop_front_def)
  next
    case (Cons x xs)
    with pop_front_llist[of s x xs] rm[of x] L show ?thesis by auto
  qed
  show "a \<in> set as \<Longrightarrow> \<exists>s'. remove s (Some a) = Inr (True, s') \<and> llist s' (remove1 a as)"
    by (rule rm)
  show "\<exists>r s' as'. erase s v = Some (Inr (r, s')) \<and> llist s' as'"
  proof (cases "List.find (\<lambda>a. map_option val (elems s a) = Some v) as")
    case None
    with find_l_llist[OF L, of v] remove_null[OF L] L show ?thesis
      by (auto simp: erase_def)
  next
    case (Some a)
    then have "a \<in> set as" by (auto simp: find_Some_iff)
    from rm[OF this] Some find_l_llist[OF L, of v] show ?thesis
      by (auto simp: erase_def)
  qed
  show "\<exists>s'. move_to_front s (Some a) = Inr s' \<and> llist s' (a # remove1 a as)" if "a \<in> set as"
  proof -
    from that obtain xs ys where as: "as = xs @ a # ys" by (auto simp: in_set_conv_decomp)
    with llist_distinct[OF L] have "remove1 a as = xs @ ys" by (simp add: remove1_append)
    with move_to_front_llist[of s xs a ys] L as show ?thesis by auto
  qed
  show "\<exists>s'. move_to_back s (Some a) = Inr s' \<and> llist s' (remove1 a as @ [a])" if "a \<in> set as"
  proof -
    from that obtain xs ys where as: "as = xs @ a # ys" by (auto simp: in_set_conv_decomp)
    with llist_distinct[OF L] have "remove1 a as = xs @ ys" by (simp add: remove1_append)
    with move_to_back_llist[of s xs a ys] L as show ?thesis by auto
  qed
  show "a \<in> set as \<Longrightarrow> b \<in> set as \<Longrightarrow> a \<noteq> b \<Longrightarrow>
           \<exists>s'. move_before s (Some a) (Some b) = Inr s' \<and>
             llist s' (insert_before a b (remove1 a as))"
    using move_before_llist[OF L, of a b] by blast
  show "\<exists>s'. clear s = Some (Inr s') \<and> llist s' []"
    using clear_llist[OF L] by (simp add: released_def)
qed

subsection \<open>The claims\<close>

text \<open>
  C1: \<open>move_before(x, null)\<close> is to re-link \<open>x\<close> at the tail so that a traversal from the
  front visits \<open>x\<close> last. On the list of the nodes 1, 2, 3 (values 10, 20, 30) the call
  \<open>move_before(1, null)\<close> returns, and afterwards the traversal from the front returns
  the values 20, 30 only: node 1 is never visited, since the \<open>next_ptr\<close> of the old tail
  is left null. The traversal from the back does start at node 1. With a second handle
  that is not null the splice is right: \<open>move_before(3, 2)\<close> gives the order 1, 3, 2.
\<close>

theorem move_before_null_drops_node:
  "llist abc_list [1, 2, 3] \<and> front_to_back abc_list = Some (Inr [10, 20, 30]) \<and>
   (\<exists>s'. move_before abc_list (Some 1) None = Inr s' \<and>
      front_to_back s' = Some (Inr [20, 30]) \<and>
      back_to_front s' = Some (Inr [10, 30, 20])) \<and>
   (\<exists>s'. move_before abc_list (Some 3) (Some 2) = Inr s' \<and> llist s' [1, 3, 2] \<and>
      front_to_back s' = Some (Inr [10, 30, 20]))"
  by (simp add: abc_list_def move_before_def prims front_to_back_def back_to_front_def
        front_l_def back_l_def walk.simps llist_def path_Cons owned_Cons)

text \<open>
  C2: every public operation is to preserve the storage invariants. On the list of the
  nodes 1, 2, 3 the call \<open>move_before(1, null)\<close> returns a state in which \<open>size_cache\<close>
  is 3 while two nodes are reachable from \<open>first\<close>, node 1 has node 3 as its \<open>prev_ptr\<close>
  while the \<open>next_ptr\<close> of node 3 is null, and which represents no list at all. On the
  one-node list the same call leaves \<open>first\<close> null while \<open>last\<close> is the node and
  \<open>size_cache\<close> is 1.
\<close>

theorem move_before_null_breaks_invariants:
  "llist abc_list [1, 2, 3] \<and>
   (\<exists>s'. move_before abc_list (Some 1) None = Inr s' \<and>
      size_l s' = Inr 3 \<and> front_l s' = Inr (Some 2) \<and>
      path (nexts (elems s')) (Some 2) [2, 3] \<and>
      map_option prev_ptr (elems s' 1) = Some (Some 3) \<and>
      map_option next_ptr (elems s' 3) = Some None \<and>
      (\<forall>as. \<not> llist s' as)) \<and>
   (\<exists>s1 s'. push_back empty_list 0 1 10 = Inr (Some 1, s1) \<and> llist s1 [1] \<and>
      move_before s1 (Some 1) None = Inr s' \<and>
      front_l s' = Inr None \<and> back_l s' = Inr (Some 1) \<and> size_l s' = Inr 1)"
proof -
  obtain s' where m: "move_before abc_list (Some 1) None = Inr s'"
    by (simp add: move_before_def abc_list_def prims)
  from m have f: "size_l s' = Inr 3" "front_l s' = Inr (Some 2)"
    "path (nexts (elems s')) (Some 2) [2, 3]"
    "map_option prev_ptr (elems s' 1) = Some (Some 3)"
    "map_option next_ptr (elems s' 3) = Some None"
    "this_data s' = Some 0" "map_option first_el (datas s' 0) = Some (Some 2)"
    "map_option size_cache (datas s' 0) = Some 3"
    by (auto simp: move_before_def abc_list_def prims size_l_def front_l_def path_Cons)
  have no: "\<not> llist s' as" for as
  proof
    assume L: "llist s' as"
    with f(6,7,8) obtain D where D: "datas s' 0 = Some D" "first_el D = Some 2"
      "size_cache D = 3" "path (nexts (elems s')) (first_el D) as" "size_cache D = int (length as)"
      by (auto simp: llist_def split: option.splits)
    from path_unique[OF D(4)[unfolded D(2)] f(3)] D(3,5) show False by simp
  qed
  have one: "\<exists>s1 s'. push_back empty_list 0 1 10 = Inr (Some 1, s1) \<and> llist s1 [1] \<and>
      move_before s1 (Some 1) None = Inr s' \<and>
      front_l s' = Inr None \<and> back_l s' = Inr (Some 1) \<and> size_l s' = Inr 1"
    by (simp add: empty_list_def push_back_def alloc_data_def move_before_def prims
          llist_def path_Cons owned_Cons front_l_def back_l_def size_l_def)
  from m f no one llist_abc_list show ?thesis by blast
qed

text \<open>
  C3: an invalid handle is to be reported and to change nothing. \<open>ListData::erase\<close>
  tests the handle for null before it reads the back-reference, and \<open>remove\<close> inherits
  that. \<open>move_to_back\<close> and \<open>move_to_front\<close> read the back-reference through the handle
  without that test, and \<open>move_before\<close> tests neither: on the list of the nodes 1, 2, 3
  the three calls with a null handle read through the null pointer, and \<open>move_before\<close>
  with node 7 of another list returns with \<open>first\<close> of this list null and node 7 as
  its \<open>last\<close>. On the same state \<open>remove\<close> and \<open>ListData::erase\<close> with the null handle or
  with node 7, and \<open>move_to_back\<close> and \<open>move_to_front\<close> with node 7, change nothing.
\<close>

theorem invalid_handle_unguarded:
  "llist two_lists [1, 2, 3] \<and> this_data two_lists = Some 0 \<and>
   map_option data (elems two_lists 7) = Some (Some 9) \<and>
   move_to_back two_lists None = Inl NullDeref \<and>
   move_to_front two_lists None = Inl NullDeref \<and>
   move_before two_lists None None = Inl NullDeref \<and>
   front_l two_lists = Inr (Some 1) \<and> back_l two_lists = Inr (Some 3) \<and>
   (\<exists>s'. move_before two_lists (Some 7) None = Inr s' \<and>
      front_l s' = Inr None \<and> back_l s' = Inr (Some 7)) \<and>
   remove two_lists None = Inr (False, two_lists) \<and>
   ListData_erase two_lists (this_data two_lists) None = Inr (False, two_lists) \<and>
   remove two_lists (Some 7) = Inr (False, two_lists) \<and>
   ListData_erase two_lists (this_data two_lists) (Some 7) = Inr (False, two_lists) \<and>
   move_to_back two_lists (Some 7) = Inr two_lists \<and>
   move_to_front two_lists (Some 7) = Inr two_lists"
proof -
  have e: "\<exists>e. elems two_lists 7 = Some e \<and> data e \<noteq> this_data two_lists"
    by (simp add: two_lists_def)
  have a: "llist two_lists [1, 2, 3] \<and> this_data two_lists = Some 0 \<and>
   map_option data (elems two_lists 7) = Some (Some 9) \<and>
   move_to_back two_lists None = Inl NullDeref \<and>
   move_to_front two_lists None = Inl NullDeref \<and>
   move_before two_lists None None = Inl NullDeref \<and>
   front_l two_lists = Inr (Some 1) \<and> back_l two_lists = Inr (Some 3) \<and>
   (\<exists>s'. move_before two_lists (Some 7) None = Inr s' \<and>
      front_l s' = Inr None \<and> back_l s' = Inr (Some 7))"
    by (simp add: two_lists_def move_to_back_def move_to_front_def move_before_def prims
          front_l_def back_l_def llist_def path_Cons owned_Cons)
  from e a remove_null[OF llist_two_lists] show ?thesis
    by (auto simp: remove_mismatch[OF llist_two_lists] ListData_erase_mismatch
          move_to_back_mismatch move_to_front_mismatch)
       (simp add: ListData_erase_def)
qed

text \<open>
  What the guards that are there do, on every state: \<open>ListData::erase\<close> returns \<open>false\<close>
  and changes nothing for the null handle and for an allocated node whose
  back-reference is not the block; \<open>move_to_back\<close> and \<open>move_to_front\<close> return early and
  change nothing for an allocated node whose back-reference is not the storage of the
  list; \<open>remove\<close> returns \<open>false\<close> and changes nothing for these handles when the list has
  no storage or its storage has a count other than 0 (with a count of 0 it frees the
  storage after the failed erase).
\<close>

lemma guarded_invalid_handles:
  "ListData_erase s this_p None = Inr (False, s)"
  "elems s a = Some e \<Longrightarrow> data e \<noteq> this_p \<Longrightarrow> ListData_erase s this_p (Some a) = Inr (False, s)"
  "elems s a = Some e \<Longrightarrow> data e \<noteq> this_data s \<Longrightarrow> move_to_back s (Some a) = Inr s"
  "elems s a = Some e \<Longrightarrow> data e \<noteq> this_data s \<Longrightarrow> move_to_front s (Some a) = Inr s"
  "this_data s = None \<or> (\<exists>c. size_l s = Inr c \<and> c \<noteq> 0) \<Longrightarrow> remove s None = Inr (False, s)"
  "this_data s = None \<or> (\<exists>c. size_l s = Inr c \<and> c \<noteq> 0) \<Longrightarrow>
     elems s a = Some e \<Longrightarrow> data e \<noteq> this_data s \<Longrightarrow> remove s (Some a) = Inr (False, s)"
  by (auto simp: ListData_erase_def ListData_erase_mismatch move_to_back_mismatch
        move_to_front_mismatch remove_def size_l_def prims bindE_def
      split: option.splits sum.splits if_splits)

text \<open>
  C4: for a list holding the nodes \<open>as\<close> and a handle \<open>h\<close> among them (in particular for
  a list of three or more nodes), \<open>move_to_front\<close> and \<open>move_to_back\<close> return, the list
  then holds the same nodes with \<open>h\<close> first (last) and the others in their old order,
  every node stores what it stored, so the multiset of the values is the same, and
  \<open>size()\<close> is the same. Moving the front node to the front or the back node to the
  back leaves the state exactly as it was.
\<close>

theorem move_to_end_reorders_only:
  assumes "llist s as"
  shows "(h \<in> set as \<longrightarrow>
           (\<exists>s'. move_to_front s (Some h) = Inr s' \<and> llist s' (h # remove1 h as) \<and>
              mset (contents s' (h # remove1 h as)) = mset (contents s as) \<and>
              (\<forall>a. map_option val (elems s' a) = map_option val (elems s a)) \<and>
              size_l s' = size_l s) \<and>
           (\<exists>s'. move_to_back s (Some h) = Inr s' \<and> llist s' (remove1 h as @ [h]) \<and>
              mset (contents s' (remove1 h as @ [h])) = mset (contents s as) \<and>
              (\<forall>a. map_option val (elems s' a) = map_option val (elems s a)) \<and>
              size_l s' = size_l s)) \<and>
         (as \<noteq> [] \<longrightarrow>
           move_to_front s (Some (hd as)) = Inr s \<and> move_to_back s (Some (last as)) = Inr s)"
proof (intro conjI impI)
  assume "as \<noteq> []"
  with assms show "move_to_front s (Some (hd as)) = Inr s" by (rule llist_hd_first)
next
  assume "as \<noteq> []"
  with assms show "move_to_back s (Some (last as)) = Inr s" by (rule llist_last_back)
next
  assume "h \<in> set as"
  then obtain xs ys where as: "as = xs @ h # ys" by (auto simp: in_set_conv_decomp)
  from llist_distinct[OF assms] as have r: "remove1 h as = xs @ ys"
    by (simp add: remove1_append)
  from assms as have L: "llist s (xs @ h # ys)" by simp
  from move_to_front_llist[OF L] obtain s' where
    m: "move_to_front s (Some h) = Inr s'" "llist s' (h # xs @ ys)"
       "\<forall>b. map_option val (elems s' b) = map_option val (elems s b)" "unchanged_count s s'"
    by blast
  have "mset (h # xs @ ys) = mset as" using as by simp
  from mset_contents_perm[OF this, of s' s] m(3)
  have "mset (contents s' (h # xs @ ys)) = mset (contents s as)" by simp
  with m r size_l_unchanged[OF m(4)]
  show "\<exists>s'. move_to_front s (Some h) = Inr s' \<and> llist s' (h # remove1 h as) \<and>
              mset (contents s' (h # remove1 h as)) = mset (contents s as) \<and>
              (\<forall>a. map_option val (elems s' a) = map_option val (elems s a)) \<and>
              size_l s' = size_l s" by auto
next
  assume "h \<in> set as"
  then obtain xs ys where as: "as = xs @ h # ys" by (auto simp: in_set_conv_decomp)
  from llist_distinct[OF assms] as have r: "remove1 h as = xs @ ys"
    by (simp add: remove1_append)
  from assms as have L: "llist s (xs @ h # ys)" by simp
  from move_to_back_llist[OF L] obtain s' where
    m: "move_to_back s (Some h) = Inr s'" "llist s' (xs @ ys @ [h])"
       "\<forall>b. map_option val (elems s' b) = map_option val (elems s b)" "unchanged_count s s'"
    by blast
  have "mset (xs @ ys @ [h]) = mset as" using as by simp
  from mset_contents_perm[OF this, of s' s] m(3)
  have "mset (contents s' (xs @ ys @ [h])) = mset (contents s as)" by simp
  with m r size_l_unchanged[OF m(4)]
  show "\<exists>s'. move_to_back s (Some h) = Inr s' \<and> llist s' (remove1 h as @ [h]) \<and>
              mset (contents s' (remove1 h as @ [h])) = mset (contents s as) \<and>
              (\<forall>a. map_option val (elems s' a) = map_option val (elems s a)) \<and>
              size_l s' = size_l s" by auto
qed

theorem move_to_end_reorders_only_witness:
  "llist abc_list [1, 2, 3] \<and>
   (\<exists>s'. move_to_front abc_list (Some 2) = Inr s' \<and> llist s' [2, 1, 3] \<and>
      contents s' [2, 1, 3] = [Some 20, Some 10, Some 30] \<and> size_l s' = Inr 3) \<and>
   (\<exists>s'. move_to_back abc_list (Some 2) = Inr s' \<and> llist s' [1, 3, 2] \<and>
      contents s' [1, 3, 2] = [Some 10, Some 30, Some 20] \<and> size_l s' = Inr 3) \<and>
   move_to_front abc_list (Some 1) = Inr abc_list \<and>
   move_to_back abc_list (Some 3) = Inr abc_list"
proof -
  have c: "\<And>s'. (\<forall>a. map_option val (elems s' a) = map_option val (elems abc_list a)) \<Longrightarrow>
      contents s' [2, 1, 3] = [Some 20, Some 10, Some 30] \<and>
      contents s' [1, 3, 2] = [Some 10, Some 30, Some 20]"
    by (simp add: contents_def abc_list_def)
  have sz: "size_l abc_list = Inr 3" by (simp add: size_l_def abc_list_def prims)
  from move_to_end_reorders_only[OF llist_abc_list, of 2] c sz llist_abc_list
  show ?thesis by (simp, blast)
qed

text \<open>
  C5: in a list holding the nodes \<open>as\<close>, \<open>find(v)\<close> returns the first node, front to
  back, that stores \<open>v\<close>, and \<open>erase(v)\<close> removes that node and no other: the list then
  holds the other nodes in their order with their values, the node is freed, \<open>size()\<close>
  is one less, and the result is \<open>true\<close>. When no node stores \<open>v\<close>, \<open>find(v)\<close> returns
  the null pointer and \<open>erase(v)\<close> returns \<open>false\<close> and changes nothing.
\<close>

theorem find_and_erase_first_match:
  assumes "llist s as"
  shows "(as = xs @ a # ys \<and> map_option val (elems s a) = Some v \<and>
          (\<forall>x \<in> set xs. map_option val (elems s x) \<noteq> Some v) \<longrightarrow>
            find_l s v = Some (Inr (Some a)) \<and>
            (\<exists>s'. erase s v = Some (Inr (True, s')) \<and> llist s' (xs @ ys) \<and>
               elems s' a = None \<and> contents s' (xs @ ys) = contents s (xs @ ys) \<and>
               size_l s = Inr (int (length as)) \<and> size_l s' = Inr (int (length as) - 1))) \<and>
         ((\<forall>x \<in> set as. map_option val (elems s x) \<noteq> Some v) \<longrightarrow>
            find_l s v = Some (Inr None) \<and> erase s v = Some (Inr (False, s)))"
proof (intro conjI impI)
  assume h: "as = xs @ a # ys \<and> map_option val (elems s a) = Some v \<and>
          (\<forall>x \<in> set xs. map_option val (elems s x) \<noteq> Some v)"
  then have "List.find (\<lambda>a. map_option val (elems s a) = Some v) as = Some a"
    by (simp add: find_split)
  with find_l_llist[OF assms, of v] show f: "find_l s v = Some (Inr (Some a))" by simp
  from assms h have L: "llist s (xs @ a # ys)" by simp
  from llist_distinct[OF L] have na: "a \<notin> set (xs @ ys)" by auto
  from remove_llist[OF L] obtain s' where
    r: "remove s (Some a) = Inr (True, s')" "llist s' (xs @ ys)" "elems s' a = None"
       "\<forall>b. b \<noteq> a \<longrightarrow> map_option val (elems s' b) = map_option val (elems s b)"
    by blast
  from r(4) na have c: "contents s' (xs @ ys) = contents s (xs @ ys)"
    by (intro contents_unchanged) auto
  from llist_size[OF assms] llist_size[OF r(2)] h
  have "size_l s = Inr (int (length as))" "size_l s' = Inr (int (length as) - 1)" by auto
  with f r c show "\<exists>s'. erase s v = Some (Inr (True, s')) \<and> llist s' (xs @ ys) \<and>
               elems s' a = None \<and> contents s' (xs @ ys) = contents s (xs @ ys) \<and>
               size_l s = Inr (int (length as)) \<and> size_l s' = Inr (int (length as) - 1)"
    by (simp add: erase_def)
next
  assume h: "\<forall>x \<in> set as. map_option val (elems s x) \<noteq> Some v"
  then have "List.find (\<lambda>a. map_option val (elems s a) = Some v) as = None"
    by (simp add: find_absent)
  with find_l_llist[OF assms, of v] show f: "find_l s v = Some (Inr None)" by simp
  with remove_null[OF assms] show "erase s v = Some (Inr (False, s))"
    by (simp add: erase_def)
qed

theorem find_and_erase_first_match_witness:
  "llist abc_list [1, 2, 3] \<and>
   find_l abc_list 20 = Some (Inr (Some 2)) \<and>
   (\<exists>s'. erase abc_list 20 = Some (Inr (True, s')) \<and> llist s' [1, 3] \<and>
      contents s' [1, 3] = [Some 10, Some 30] \<and> size_l s' = Inr 2) \<and>
   find_l abc_list 50 = Some (Inr None) \<and> erase abc_list 50 = Some (Inr (False, abc_list))"
proof -
  have 1: "[1, 2, 3] = [1] @ 2 # [3] \<and> map_option val (elems abc_list 2) = Some 20 \<and>
          (\<forall>x \<in> set [1]. map_option val (elems abc_list x) \<noteq> Some 20)"
    by (simp add: abc_list_def)
  have 2: "\<forall>x \<in> set [1, 2, 3]. map_option val (elems abc_list x) \<noteq> Some 50"
    by (simp add: abc_list_def)
  have c: "contents abc_list [1, 3] = [Some 10, Some 30]"
    by (simp add: contents_def abc_list_def)
  from find_and_erase_first_match[OF llist_abc_list, of "[1]" 2 "[3]" 20] 1
    find_and_erase_first_match[OF llist_abc_list, of "[]" 0 "[]" 50] 2 c llist_abc_list
  show ?thesis by auto
qed

text \<open>
  C6: pushing the values of \<open>nvs\<close> in turn with \<open>push_back\<close> into a list without storage,
  each into a node that is not in use: the traversal from \<open>front()\<close> along \<open>next()\<close>
  returns the values in push order, and the traversal from \<open>back()\<close> along \<open>prev()\<close>
  returns them in reverse order.
\<close>

theorem push_back_round_trip:
  assumes "this_data s = None" and "distinct (map fst nvs)"
    and "fst ` set nvs \<inter> dom (elems s) = {}"
  shows "\<exists>s'. push_back_all s d_new nvs = Inr s' \<and>
           front_to_back s' = Some (Inr (map snd nvs)) \<and>
           back_to_front s' = Some (Inr (rev (map snd nvs)))"
proof -
  from assms(1) have L: "llist s []" by simp
  from push_back_all_llist[OF L assms(2,3), of d_new] obtain s' where
    p: "push_back_all s d_new nvs = Inr s'" and L': "llist s' (map fst nvs)" and
    c: "contents s' (map fst nvs) = map Some (map snd nvs)"
    by (auto simp: contents_def)
  from traversals_llist[OF L' c] p show ?thesis by simp
qed

theorem push_back_round_trip_witness:
  "this_data empty_list = None \<and>
   (\<exists>s'. push_back_all empty_list 0 [(1, 10), (2, 20), (3, 30)] = Inr s' \<and>
      front_to_back s' = Some (Inr [10, 20, 30]) \<and>
      back_to_front s' = Some (Inr [30, 20, 10]))"
  using push_back_round_trip[of empty_list "[(1, 10), (2, 20), (3, 30)]" 0]
  by (simp add: empty_list_def)

text \<open>
  C7: \<open>pop_back\<close> and \<open>pop_front\<close> on a list without nodes return and change nothing; on
  a list holding the nodes \<open>as\<close> they remove the last (first) node and free it. Removing
  every node, by \<open>clear\<close>, by as many \<open>pop_back\<close> or \<open>pop_front\<close> as there are nodes, or
  by \<open>remove\<close> of each node in any order, ends in the state \<open>released s as\<close>: the nodes
  and the storage are freed and \<open>_data\<close> is null, as in a freshly constructed list, and
  a push then builds the one-node list.
\<close>

theorem pop_and_release:
  assumes "llist s as"
  shows "(as = [] \<longrightarrow> pop_back s = Inr s \<and> pop_front s = Inr s) \<and>
         (as \<noteq> [] \<longrightarrow>
            (\<exists>s'. pop_back s = Inr s' \<and> llist s' (butlast as) \<and> elems s' (last as) = None) \<and>
            (\<exists>s'. pop_front s = Inr s' \<and> llist s' (tl as) \<and> elems s' (hd as) = None)) \<and>
         clear s = Some (Inr (released s as)) \<and>
         repeatedly (length as) pop_back s = Inr (released s as) \<and>
         repeatedly (length as) pop_front s = Inr (released s as) \<and>
         (\<forall>bs. distinct bs \<and> set bs = set as \<longrightarrow> remove_all s bs = Inr (released s as)) \<and>
         this_data (released s as) = None \<and>
         (\<forall>a \<in> set as. elems (released s as) a = None) \<and>
         (\<forall>d. this_data s = Some d \<longrightarrow> datas (released s as) d = None) \<and>
         (\<forall>n v d_new. n \<notin> dom (elems (released s as)) \<longrightarrow>
            (\<exists>s'. push_back (released s as) d_new n v = Inr (Some n, s') \<and> llist s' [n] \<and>
               contents s' [n] = [Some v]))"
proof (intro conjI impI allI ballI)
  assume "as = []"
  with assms show "pop_back s = Inr s" "pop_front s = Inr s"
    by (simp_all add: pop_back_def pop_front_def)
next
  assume "as \<noteq> []"
  then obtain xs x where as: "as = xs @ [x]" by (cases as rule: rev_cases) auto
  with assms have L: "llist s (xs @ x # [])" by simp
  from pop_back_llist[OF L[simplified]] remove_llist[OF L] as
  show "\<exists>s'. pop_back s = Inr s' \<and> llist s' (butlast as) \<and> elems s' (last as) = None"
    by auto
next
  assume "as \<noteq> []"
  then obtain x xs where as: "as = x # xs" by (cases as) auto
  with assms have L: "llist s ([] @ x # xs)" by simp
  from pop_front_llist[OF L[simplified]] remove_llist[OF L] as
  show "\<exists>s'. pop_front s = Inr s' \<and> llist s' (tl as) \<and> elems s' (hd as) = None"
    by auto
next
  from assms show "clear s = Some (Inr (released s as))" by (rule clear_llist)
  from assms show "repeatedly (length as) pop_back s = Inr (released s as)" by (rule repeatedly_pop_back)
  from assms show "repeatedly (length as) pop_front s = Inr (released s as)" by (rule repeatedly_pop_front)
  show "this_data (released s as) = None" by (simp add: released_def)
next
  fix bs assume "distinct bs \<and> set bs = set as"
  with assms show "remove_all s bs = Inr (released s as)" by (simp add: remove_all_released)
next
  fix a assume "a \<in> set as"
  then show "elems (released s as) a = None" by (simp add: released_def)
next
  fix d assume "this_data s = Some d"
  then show "datas (released s as) d = None" by (simp add: released_def)
next
  fix n :: addr and v :: 'a and d_new :: addr
  assume n: "n \<notin> dom (elems (released s as))"
  have "llist (released s as) []" by (simp add: released_def)
  from push_back_llist[OF this n, of d_new v]
  show "\<exists>s'. push_back (released s as) d_new n v = Inr (Some n, s') \<and> llist s' [n] \<and>
               contents s' [n] = [Some v]"
    by (auto simp: contents_def)
qed

theorem pop_and_release_witness:
  "llist abc_list [1, 2, 3] \<and> llist empty_list [] \<and>
   pop_back empty_list = Inr empty_list \<and> pop_front empty_list = Inr empty_list \<and>
   (\<exists>s'. pop_back abc_list = Inr s' \<and> llist s' [1, 2] \<and> elems s' 3 = None) \<and>
   (\<exists>s'. pop_front abc_list = Inr s' \<and> llist s' [2, 3] \<and> elems s' 1 = None) \<and>
   released abc_list [1, 2, 3] = empty_list \<and>
   clear abc_list = Some (Inr empty_list) \<and>
   repeatedly 3 pop_back abc_list = Inr empty_list \<and>
   repeatedly 3 pop_front abc_list = Inr empty_list \<and>
   remove_all abc_list [2, 3, 1] = Inr empty_list \<and>
   (\<exists>s'. push_back empty_list 0 1 10 = Inr (Some 1, s') \<and> llist s' [1] \<and>
      contents s' [1] = [Some 10])"
proof -
  have e: "llist empty_list []" by (simp add: empty_list_def)
  have r: "released abc_list [1, 2, 3] = empty_list"
    by (simp add: released_def abc_list_def empty_list_def fun_eq_iff)
  note E = pop_and_release[OF e]
  note A = pop_and_release[OF llist_abc_list, unfolded r]
  from E have 1: "pop_back empty_list = Inr empty_list \<and> pop_front empty_list = Inr empty_list"
    by simp
  from A have 2: "\<exists>s'. pop_back abc_list = Inr s' \<and> llist s' [1, 2] \<and> elems s' 3 = None"
    by simp
  from A have 3: "\<exists>s'. pop_front abc_list = Inr s' \<and> llist s' [2, 3] \<and> elems s' 1 = None"
    by simp
  from A have 4: "clear abc_list = Some (Inr empty_list)"
    "repeatedly 3 pop_back abc_list = Inr empty_list" "repeatedly 3 pop_front abc_list = Inr empty_list"
    by (simp_all add: numeral_3_eq_3)
  from A have "distinct [2, 3, 1::nat] \<and> set [2, 3, 1::nat] = set [1, 2, 3] \<longrightarrow>
      remove_all abc_list [2, 3, 1] = Inr empty_list" by blast
  then have 5: "remove_all abc_list [2, 3, 1] = Inr empty_list" by auto
  from A have "1 \<notin> dom (elems empty_list) \<longrightarrow>
      (\<exists>s'. push_back empty_list 0 1 10 = Inr (Some 1, s') \<and> llist s' [1] \<and>
         contents s' [1] = [Some 10])" by blast
  then have 6: "\<exists>s'. push_back empty_list 0 1 10 = Inr (Some 1, s') \<and> llist s' [1] \<and>
         contents s' [1] = [Some 10]" by (simp add: empty_list_def)
  from e llist_abc_list r 1 2 3 4 5 6 show ?thesis by blast
qed

text \<open>
  C8: \<open>push_back\<close> and \<open>push_front\<close> into a list holding the nodes \<open>as\<close>, with \<open>n\<close> the
  node the allocator hands out: the list then holds \<open>as\<close> in the same order with \<open>n\<close>
  after them (\<open>push_back\<close>) or before them (\<open>push_front\<close>), every node other than \<open>n\<close>
  stores what it stored, \<open>n\<close> stores the pushed value, and \<open>n\<close> is the only node added.
\<close>

theorem push_keeps_existing_nodes:
  assumes "llist s as" and "n \<notin> dom (elems s)"
  shows "(\<exists>s'. push_back s d_new n v = Inr (Some n, s') \<and> llist s' (as @ [n]) \<and>
            contents s' as = contents s as \<and> contents s' [n] = [Some v] \<and>
            (\<forall>a. a \<noteq> n \<longrightarrow> map_option val (elems s' a) = map_option val (elems s a)) \<and>
            dom (elems s') = insert n (dom (elems s))) \<and>
         (\<exists>s'. push_front s d_new n v = Inr (Some n, s') \<and> llist s' (n # as) \<and>
            contents s' as = contents s as \<and> contents s' [n] = [Some v] \<and>
            (\<forall>a. a \<noteq> n \<longrightarrow> map_option val (elems s' a) = map_option val (elems s a)) \<and>
            dom (elems s') = insert n (dom (elems s)))"
proof -
  from llist_allocated[OF assms(1)] assms(2) have nin: "n \<notin> set as" by auto
  from push_back_llist[OF assms, of d_new v] obtain s1 where
    1: "push_back s d_new n v = Inr (Some n, s1)" "llist s1 (as @ [n])"
       "map_option val (elems s1 n) = Some v"
       "\<forall>a. a \<noteq> n \<longrightarrow> map_option val (elems s1 a) = map_option val (elems s a)"
       "dom (elems s1) = insert n (dom (elems s))" by blast
  from 1(4) nin have c1: "contents s1 as = contents s as"
    by (intro contents_unchanged) auto
  from push_front_llist[OF assms, of d_new v] obtain s2 where
    2: "push_front s d_new n v = Inr (Some n, s2)" "llist s2 (n # as)"
       "map_option val (elems s2 n) = Some v"
       "\<forall>a. a \<noteq> n \<longrightarrow> map_option val (elems s2 a) = map_option val (elems s a)"
       "dom (elems s2) = insert n (dom (elems s))" by blast
  from 2(4) nin have c2: "contents s2 as = contents s as"
    by (intro contents_unchanged) auto
  from 1 c1 2 c2 show ?thesis by (simp add: contents_def)
qed

theorem push_keeps_existing_nodes_witness:
  "llist abc_list [1, 2, 3] \<and> 4 \<notin> dom (elems abc_list) \<and>
   (\<exists>s'. push_back abc_list 9 4 40 = Inr (Some 4, s') \<and> llist s' [1, 2, 3, 4] \<and>
      contents s' [1, 2, 3, 4] = [Some 10, Some 20, Some 30, Some 40]) \<and>
   (\<exists>s'. push_front abc_list 9 4 40 = Inr (Some 4, s') \<and> llist s' [4, 1, 2, 3] \<and>
      contents s' [4, 1, 2, 3] = [Some 40, Some 10, Some 20, Some 30])"
proof -
  have f: "4 \<notin> dom (elems abc_list)" by (simp add: abc_list_def)
  have c: "contents abc_list [1, 2, 3] = [Some 10, Some 20, Some 30]"
    by (simp add: contents_def abc_list_def)
  from push_keeps_existing_nodes[OF llist_abc_list f, of 9 40] c llist_abc_list f
  show ?thesis by (auto simp: contents_def)
qed

text \<open>
  C9: \<open>move_before\<close> never changes the element count. Whatever the two handles are,
  when the call returns, \<open>size()\<close> gives what it gave before the call and the set of
  allocated nodes is the same: the splice neither allocates nor releases a node. For a
  node of the list and a second handle that is null or a node of the list, the call
  does return.
\<close>

theorem move_before_keeps_size:
  "(move_before s p_A p_B = Inr s' \<longrightarrow>
      size_l s' = size_l s \<and> dom (elems s') = dom (elems s)) \<and>
   (llist s as \<and> a \<in> set as \<and> (p_B = None \<or> p_B \<in> Some ` set as) \<longrightarrow>
      (\<exists>s''. move_before s (Some a) p_B = Inr s'' \<and>
         size_l s'' = size_l s \<and> dom (elems s'') = dom (elems s)))"
proof -
  have keep: "size_l t' = size_l t \<and> dom (elems t') = dom (elems t)"
    if "move_before t p q = Inr t'" for t t' :: "'a state" and p q
    using move_before_count[OF that] by (simp add: size_l_unchanged) (simp add: unchanged_count_def)
  show ?thesis
  proof (rule conjI; rule impI)
    assume "move_before s p_A p_B = Inr s'"
    then show "size_l s' = size_l s \<and> dom (elems s') = dom (elems s)" by (rule keep)
  next
    assume "llist s as \<and> a \<in> set as \<and> (p_B = None \<or> p_B \<in> Some ` set as)"
    then obtain s'' where "move_before s (Some a) p_B = Inr s''"
      using move_before_returns[of s as a p_B] by blast
    with keep[OF this]
    show "\<exists>s''. move_before s (Some a) p_B = Inr s'' \<and>
         size_l s'' = size_l s \<and> dom (elems s'') = dom (elems s)" by blast
  qed
qed

theorem move_before_keeps_size_witness:
  "llist abc_list [1, 2, 3] \<and>
   (\<exists>s'. move_before abc_list (Some 3) (Some 2) = Inr s' \<and>
        size_l s' = Inr 3 \<and> size_l abc_list = Inr 3 \<and> dom (elems s') = {1, 2, 3}) \<and>
   (\<exists>s'. move_before abc_list (Some 1) None = Inr s' \<and>
        size_l s' = Inr 3 \<and> dom (elems s') = {1, 2, 3})"
proof -
  have 1: "llist abc_list [1, 2, 3] \<and> 3 \<in> set [1, 2, 3::nat] \<and>
      (Some (2::nat) = None \<or> Some 2 \<in> Some ` set [1, 2, 3::nat])" using llist_abc_list by simp
  have 2: "llist abc_list [1, 2, 3] \<and> 1 \<in> set [1, 2, 3::nat] \<and>
      ((None::nat option) = None \<or> None \<in> Some ` set [1, 2, 3::nat])"
    using llist_abc_list by simp
  have sz: "size_l abc_list = Inr 3" "dom (elems abc_list) = {1, 2, 3}"
    by (auto simp: size_l_def abc_list_def prims)
  from move_before_keeps_size[of abc_list "Some 3" "Some 2" abc_list "[1, 2, 3]" 3,
         THEN conjunct2, rule_format, OF 1]
       move_before_keeps_size[of abc_list "Some 1" None abc_list "[1, 2, 3]" 1,
         THEN conjunct2, rule_format, OF 2]
       sz llist_abc_list
  show ?thesis by simp
qed

text \<open>
  C10: \<open>remove\<close> on a list object that owns no storage returns \<open>false\<close> and leaves
  everything as it was, for every argument, the null pointer included.
\<close>

theorem remove_without_storage:
  "this_data s = None \<Longrightarrow> remove s p_I = Inr (False, s)"
  by (simp add: remove_def)

theorem remove_without_storage_witness:
  "this_data empty_list = None \<and> remove empty_list None = Inr (False, empty_list) \<and>
   remove empty_list (Some 7) = Inr (False, empty_list)"
  using remove_without_storage[of empty_list None] remove_without_storage[of empty_list "Some 7"]
  by (simp add: empty_list_def)

end
